theory Spec2Isabelle
  imports Complex_Main "HOL-Library.Word" "HOL-Library.Multiset"
begin

unbundle bit_operations_syntax

section \<open>JavaScript values shared by the three generators\<close>

text \<open>
  The generators report soft failures through \<^verbatim>\<open>console.warn\<close> and
  \<^verbatim>\<open>console.error\<close>. An operation that may log returns the messages it emitted
  together with its result.
\<close>

datatype log = Warn string | Error string

text \<open>
  A Symbol is an integer pitch code. An array element read by the code is either such a
  number or \<^verbatim>\<open>undefined\<close>, which is what a read past the end of an array yields.
\<close>

datatype jsval = Num int | Undefined

definition js_nth :: "jsval list \<Rightarrow> nat \<Rightarrow> jsval" where
  "js_nth xs i = (if i < length xs then xs ! i else Undefined)"

text \<open>\<^verbatim>\<open>Array.prototype.slice(start, end)\<close> for non-negative integer arguments.\<close>

definition slice :: "'a list \<Rightarrow> nat \<Rightarrow> nat \<Rightarrow> 'a list" where
  "slice xs start end = take (end - start) (drop start xs)"

text \<open>
  \<^verbatim>\<open>Array.prototype.slice(start)\<close>: a negative start counts from the end of the array.
\<close>

definition slice_from :: "'a list \<Rightarrow> int \<Rightarrow> 'a list" where
  "slice_from xs start =
     (if start < 0 then drop (nat (max (int (length xs) + start) 0)) xs
      else drop (nat start) xs)"

text \<open>Decimal and binary rendering of numbers, as template strings and \<^verbatim>\<open>toString\<close> do.\<close>

definition digit_char :: "nat \<Rightarrow> char" where
  "digit_char d = ''0123456789'' ! d"

fun nat_decimal :: "nat \<Rightarrow> string" where
  "nat_decimal n =
     (if n < 10 then [digit_char n] else nat_decimal (n div 10) @ [digit_char (n mod 10)])"

fun nat_binary :: "nat \<Rightarrow> string" where
  "nat_binary n =
     (if n < 2 then [digit_char n] else nat_binary (n div 2) @ [digit_char (n mod 2)])"

declare nat_decimal.simps [simp del] nat_binary.simps [simp del]

definition int_to_string :: "int \<Rightarrow> string" where
  "int_to_string i =
     (if i < 0 then CHR ''-'' # nat_decimal (nat (- i)) else nat_decimal (nat i))"

definition js_to_string :: "jsval \<Rightarrow> string" where
  "js_to_string v = (case v of Num n \<Rightarrow> int_to_string n | Undefined \<Rightarrow> ''undefined'')"

text \<open>\<^verbatim>\<open>Math.round\<close> rounds to the nearest integer, a half towards plus infinity.\<close>

definition js_round :: "rat \<Rightarrow> int" where
  "js_round x = \<lfloor>x + 1 / 2\<rfloor>"

text \<open>
  \<^verbatim>\<open>Math.floor(Math.random() * n)\<close>: \<^verbatim>\<open>Math.random()\<close> lies in the half-open unit
  interval, so the result is some index below \<open>n\<close> when \<open>n\<close> is positive, and \<open>0\<close> when
  \<open>n\<close> is \<open>0\<close>. The source of randomness is a sequence of naturals, one per call of
  \<^verbatim>\<open>Math.random\<close>; the draw \<open>d\<close> selects the index \<open>d mod n\<close>, so every index the code can
  pick is picked by some draw.
\<close>

type_synonym rng = "nat \<Rightarrow> nat"

definition random_index :: "nat \<Rightarrow> nat \<Rightarrow> nat" where
  "random_index d n = (if n = 0 then 0 else d mod n)"

section \<open>L-System (js/l-system.js)\<close>

text \<open>
  The rules object maps a one-character symbol to its replacement string; a property that
  is absent reads as \<^verbatim>\<open>undefined\<close>, modelled by \<open>None\<close>.
\<close>

type_synonym rules = "char \<rightharpoonup> string"

record lsystem =
  axiom :: string
  rules :: rules
  result :: string

definition new_LSystem :: "string \<Rightarrow> rules \<Rightarrow> lsystem" where
  "new_LSystem ax rs = \<lparr>axiom = ax, rules = rs, result = ax\<rparr>"

text \<open>
  The test \<^verbatim>\<open>if (this.rules[symbol])\<close> is a truthiness test: it fails for a missing
  property and also for the empty string.
\<close>

definition rewrite_symbol :: "rules \<Rightarrow> string \<Rightarrow> char \<Rightarrow> string" where
  "rewrite_symbol rs next symbol =
     (case rs symbol of
        Some r \<Rightarrow> if r \<noteq> [] then next @ r else next @ [symbol]
      | None \<Rightarrow> next @ [symbol])"

definition rewrite_string :: "rules \<Rightarrow> string \<Rightarrow> string" where
  "rewrite_string rs current = foldl (rewrite_symbol rs) [] current"

fun ls_generate_loop :: "rules \<Rightarrow> nat \<Rightarrow> string \<Rightarrow> string" where
  "ls_generate_loop rs 0 current = current"
| "ls_generate_loop rs (Suc n) current = ls_generate_loop rs n (rewrite_string rs current)"

definition ls_generate :: "lsystem \<Rightarrow> nat \<Rightarrow> string \<times> lsystem" where
  "ls_generate L iterations =
     (let current = ls_generate_loop (rules L) iterations (axiom L)
      in (current, L\<lparr>result := current\<rparr>))"

text \<open>
  The rewriting map as the specification words it: a symbol with a rule is replaced by the
  rule's replacement, any other symbol is kept.
\<close>

definition spec_rewrite :: "rules \<Rightarrow> string \<Rightarrow> string" where
  "spec_rewrite rs s = concat (map (\<lambda>c. case rs c of Some r \<Rightarrow> r | None \<Rightarrow> [c]) s)"

definition spec_generate :: "lsystem \<Rightarrow> nat \<Rightarrow> string" where
  "spec_generate L iterations = ((spec_rewrite (rules L)) ^^ iterations) (axiom L)"

subsection \<open>applyToMusic\<close>

type_synonym transforms = "char \<rightharpoonup> (int \<Rightarrow> int)"

definition defaultTransform :: transforms where
  "defaultTransform =
     [CHR ''A'' \<mapsto> (\<lambda>note. min (note + 1) 127),
      CHR ''B'' \<mapsto> (\<lambda>note. max (note - 1) 0),
      CHR ''C'' \<mapsto> (\<lambda>note. 120 - note),
      CHR ''D'' \<mapsto> (\<lambda>note. note),
      CHR ''E'' \<mapsto> (\<lambda>note. note),
      CHR ''F'' \<mapsto> (\<lambda>note. note)]"

definition effective_transforms :: "transforms option \<Rightarrow> transforms" where
  "effective_transforms transformations =
     (case transformations of Some t \<Rightarrow> t | None \<Rightarrow> defaultTransform)"

text \<open>\<^verbatim>\<open>Math.ceil(a / b)\<close> for array lengths \<open>a\<close> and \<open>b > 0\<close>.\<close>

definition ceil_div :: "nat \<Rightarrow> nat \<Rightarrow> nat" where
  "ceil_div a b = (a + b - 1) div b"

definition transform_segment :: "transforms \<Rightarrow> char \<Rightarrow> int list \<Rightarrow> int list" where
  "transform_segment ts symbol segment =
     (case ts symbol of Some f \<Rightarrow> map f segment | None \<Rightarrow> segment)"

function applyToMusic_loop ::
  "string \<Rightarrow> int list \<Rightarrow> transforms \<Rightarrow> nat \<Rightarrow> nat \<Rightarrow> int list \<Rightarrow> int list" where
  "applyToMusic_loop res sequence ts segmentSize i transformed =
     (if i < length res then
        (let symbol = res ! i;
             startIdx = i * segmentSize;
             endIdx = min ((i + 1) * segmentSize) (length sequence)
         in if startIdx \<ge> length sequence then transformed
            else applyToMusic_loop res sequence ts segmentSize (i + 1)
                   (transformed @ transform_segment ts symbol (slice sequence startIdx endIdx)))
      else transformed)"
  by pat_completeness auto
termination
  by (relation "measure (\<lambda>(res, sequence, ts, segmentSize, i, transformed). length res - i)") auto

declare applyToMusic_loop.simps [simp del]

definition applyToMusic ::
  "lsystem \<Rightarrow> int list \<Rightarrow> transforms option \<Rightarrow> log list \<times> int list" where
  "applyToMusic L sequence transformations =
     (if result L = [] then ([Warn ''L-System not generated yet''], sequence)
      else
        (let ts = effective_transforms transformations;
             segmentSize = ceil_div (length sequence) (length (result L))
         in ([], applyToMusic_loop (result L) sequence ts segmentSize 0 [])))"

text \<open>
  The window an input index belongs to, and the value the output holds at that index: the
  transform of the window's derivation symbol applied to the input symbol, or the input
  symbol itself when that symbol has no transform.
\<close>

definition in_window :: "nat \<Rightarrow> nat \<Rightarrow> nat \<Rightarrow> nat \<Rightarrow> bool" where
  "in_window segmentSize n i k \<longleftrightarrow> i * segmentSize \<le> k \<and> k < min ((i + 1) * segmentSize) n"

definition window_value :: "string \<Rightarrow> int list \<Rightarrow> transforms \<Rightarrow> nat \<Rightarrow> nat \<Rightarrow> int" where
  "window_value res sequence ts segmentSize k =
     (case ts (res ! (k div segmentSize)) of
        Some f \<Rightarrow> f (sequence ! k)
      | None \<Rightarrow> sequence ! k)"

section \<open>Markov chain (js/markov-chain.js)\<close>

text \<open>
  The transition table is a \<^verbatim>\<open>Map\<close> keyed by \<^verbatim>\<open>JSON.stringify\<close> of a window of the
  sequence. A key string is represented by the JSON array it denotes: JSON has no
  \<^verbatim>\<open>undefined\<close>, so \<^verbatim>\<open>JSON.stringify\<close> writes \<^verbatim>\<open>null\<close> for it, and on arrays of
  integers and \<^verbatim>\<open>undefined\<close> two arrays give the same string exactly when they give the
  same JSON array.
\<close>

datatype json = JNum int | JNull

type_synonym key = "json list"

definition to_json :: "jsval \<Rightarrow> json" where
  "to_json v = (case v of Num n \<Rightarrow> JNum n | Undefined \<Rightarrow> JNull)"

definition stringify :: "jsval list \<Rightarrow> key" where
  "stringify xs = map to_json xs"

text \<open>
  A \<^verbatim>\<open>Map\<close> keeps its entries in insertion order and holds each key once: \<open>table_set\<close>
  overwrites the value of a key that is present and appends a new key at the end.
\<close>

type_synonym table = "(key \<times> int list) list"

definition table_has :: "table \<Rightarrow> key \<Rightarrow> bool" where
  "table_has t k = (map_of t k \<noteq> None)"

definition table_get :: "table \<Rightarrow> key \<Rightarrow> int list option" where
  "table_get t k = map_of t k"

fun table_set :: "('k \<times> 'v) list \<Rightarrow> 'k \<Rightarrow> 'v \<Rightarrow> ('k \<times> 'v) list" where
  "table_set [] k v = [(k, v)]"
| "table_set ((k', v') # t) k v = (if k' = k then (k, v) # t else (k', v') # table_set t k v)"

text \<open>
  \<^verbatim>\<open>this.transitionTable.get(state).push(x)\<close> appends to the array stored under the key.
  Both callers create the key first, so the key is present.
\<close>

definition table_push :: "table \<Rightarrow> key \<Rightarrow> int \<Rightarrow> table" where
  "table_push t k x = (case table_get t k of Some vs \<Rightarrow> table_set t k (vs @ [x]) | None \<Rightarrow> t)"

definition table_ensure :: "table \<Rightarrow> key \<Rightarrow> table" where
  "table_ensure t k = (if \<not> table_has t k then table_set t k [] else t)"

record markov =
  order :: nat
  transitionTable :: table
  startingStates :: "int list list"

definition new_MarkovChain :: "nat \<Rightarrow> markov" where
  "new_MarkovChain ord = \<lparr>order = ord, transitionTable = [], startingStates = []\<rparr>"

subsection \<open>train\<close>

definition train_step :: "nat \<Rightarrow> int list \<Rightarrow> table \<Rightarrow> nat \<Rightarrow> table" where
  "train_step ord sequence t i =
     (let state = stringify (map Num (slice sequence i (i + ord)));
          nextValue = sequence ! (i + ord)
      in table_push (table_ensure t state) state nextValue)"

text \<open>
  The loop runs \<open>i\<close> from \<open>0\<close> to \<open>length sequence - order - 1\<close>, so that \<open>i + order\<close> is
  an index of the sequence.
\<close>

definition mc_train :: "markov \<Rightarrow> int list \<Rightarrow> log list \<times> markov" where
  "mc_train m sequence =
     (if length sequence \<le> order m
      then ([Warn (''Sequence too short for Markov order '' @ nat_decimal (order m))], m)
      else ([], m\<lparr>startingStates := startingStates m @ [slice sequence 0 (order m)],
                  transitionTable :=
                    foldl (train_step (order m) sequence) (transitionTable m)
                      [0..<length sequence - order m]\<rparr>))"

subsection \<open>generate\<close>

text \<open>
  One turn of the \<^verbatim>\<open>while\<close> loop either pushes a value or breaks. \<open>d\<close> is the draw of
  \<^verbatim>\<open>Math.random\<close> this turn uses. The key is in the table exactly when
  \<^verbatim>\<open>transitionTable.get\<close> returns an array.
\<close>

datatype turn = Push jsval | Break

definition generate_turn :: "markov \<Rightarrow> nat \<Rightarrow> jsval list \<Rightarrow> turn" where
  "generate_turn m d sequence =
     (let state = stringify (slice_from sequence (int (length sequence) - int (order m)))
      in case table_get (transitionTable m) state of
           Some possibleNextValues \<Rightarrow>
             Push (js_nth (map Num possibleNextValues)
                     (random_index d (length possibleNextValues)))
         | None \<Rightarrow>
             if length (startingStates m) > 0 then
               (let randomState =
                      startingStates m ! random_index d (length (startingStates m))
                in Push (js_nth (map Num randomState) 0))
             else Break)"

function mc_generate_loop ::
  "markov \<Rightarrow> rng \<Rightarrow> nat \<Rightarrow> int \<Rightarrow> jsval list \<Rightarrow> log list \<times> jsval list" where
  "mc_generate_loop m rnd k len sequence =
     (if int (length sequence) < len then
        (case generate_turn m (rnd k) sequence of
           Push nextValue \<Rightarrow> mc_generate_loop m rnd (k + 1) len (sequence @ [nextValue])
         | Break \<Rightarrow>
             ([Warn ''No transition found and no starting states available''], sequence))
      else ([], sequence))"
  by pat_completeness auto
termination
  by (relation "measure (\<lambda>(m, rnd, k, len, sequence). nat (len - int (length sequence)))") auto

declare mc_generate_loop.simps [simp del]

definition mc_generate ::
  "markov \<Rightarrow> rng \<Rightarrow> int \<Rightarrow> int list option \<Rightarrow> log list \<times> jsval list" where
  "mc_generate m rnd len startState =
     (if length (transitionTable m) = 0 then ([Error ''Markov chain not trained yet''], [])
      else if startState \<noteq> None \<and> length (the startState) = order m then
        mc_generate_loop m rnd 0 len (map Num (the startState))
      else if length (startingStates m) > 0 then
        (let randomIndex = random_index (rnd 0) (length (startingStates m))
         in mc_generate_loop m rnd 1 len (map Num (startingStates m ! randomIndex)))
      else ([Error ''No valid starting state available''], []))"

subsection \<open>updateProbabilities\<close>

text \<open>
  The argument is an object of objects: from-state, then to-state, then probability. Its
  property names are the decimal strings of the states, which \<^verbatim>\<open>parseInt\<close> reads back, so
  an entry of \<^verbatim>\<open>Object.entries\<close> is modelled as the state paired with its value. An object
  holds each property name once.

  A probability is a JavaScript number, a finite IEEE 754 double, held as the rational it
  denotes. The product \<^verbatim>\<open>probability * 100\<close> is the double product, which is the exact
  product rounded to a double and need not be the exact product. The multiplication of
  doubles is a parameter \<open>mul\<close> of the model, so that what is proved of
  \<open>updateProbabilities\<close> holds of the product the engine computes. \<^verbatim>\<open>Math.round\<close> is exact
  on the double it is given.
\<close>

type_synonym double_mul = "rat \<Rightarrow> rat \<Rightarrow> rat"

type_synonym probabilities = "(int \<times> (int \<times> rat) list) list"

definition update_transition :: "double_mul \<Rightarrow> key \<Rightarrow> table \<Rightarrow> int \<times> rat \<Rightarrow> table" where
  "update_transition mul stateKey t entry =
     (case entry of (toState, probability) \<Rightarrow>
        if probability \<le> 0 then t
        else
          (let copies = js_round (mul probability 100);
               t' = table_ensure t stateKey
           in foldl (\<lambda>tab i. table_push tab stateKey toState) t' [0..<nat copies]))"

definition update_from :: "double_mul \<Rightarrow> table \<Rightarrow> int \<times> (int \<times> rat) list \<Rightarrow> table" where
  "update_from mul t entry =
     (case entry of (fromState, transitions) \<Rightarrow>
        foldl (update_transition mul (stringify [Num fromState])) t transitions)"

definition updateProbabilities ::
  "double_mul \<Rightarrow> markov \<Rightarrow> probabilities \<Rightarrow> log list \<times> markov" where
  "updateProbabilities mul m newProbabilities =
     (if order m \<noteq> 1
      then ([Warn ''Updating probabilities only available for first-order Markov chains''], m)
      else ([], m\<lparr>transitionTable := foldl (update_from mul) [] newProbabilities\<rparr>))"

text \<open>
  The finite doubles: an integer significand below \<open>2 ^ 53\<close> in magnitude, scaled by a
  power of two from \<open>2 ^ -1074\<close> to \<open>2 ^ 971\<close>.
\<close>

definition is_double :: "rat \<Rightarrow> bool" where
  "is_double x \<longleftrightarrow>
     (\<exists>m :: int. \<exists>s :: nat. \<bar>m\<bar> < 2 ^ 53 \<and> s \<le> 2045 \<and> x = of_int m * 2 ^ s / 2 ^ 1074)"

text \<open>
  IEEE 754 rounding to nearest: the double \<open>y\<close> computed for the exact value \<open>x\<close> is a
  double as near to \<open>x\<close> as any double is.
\<close>

definition nearest_double :: "rat \<Rightarrow> rat \<Rightarrow> bool" where
  "nearest_double y x \<longleftrightarrow> is_double y \<and> (\<forall>d. is_double d \<longrightarrow> \<bar>y - x\<bar> \<le> \<bar>d - x\<bar>)"

text \<open>
  The exact product. It is the double product of two doubles whenever it is a double
  itself.
\<close>

definition exact_mul :: double_mul where
  "exact_mul a b = a * b"

text \<open>
  The successor multiset a table holds for a from-state of an order-1 model; a from-state
  without a key has no successors.
\<close>

definition successors :: "table \<Rightarrow> int \<Rightarrow> int multiset" where
  "successors t fromState =
     (case table_get t (stringify [Num fromState]) of Some vs \<Rightarrow> mset vs | None \<Rightarrow> {#})"

text \<open>
  The number of copies the specification declares for a to-state of a from-state:
  \<open>round (probability * 100)\<close>, the product being the double product, when the to-state
  is declared with a strictly positive probability, none otherwise.
\<close>

definition declared_copies :: "double_mul \<Rightarrow> (int \<times> rat) list \<Rightarrow> int \<Rightarrow> nat" where
  "declared_copies mul transitions toState =
     (case map_of transitions toState of
        Some probability \<Rightarrow> if probability > 0 then nat (js_round (mul probability 100)) else 0
      | None \<Rightarrow> 0)"

subsection \<open>getProbabilityMatrix\<close>

text \<open>
  \<^verbatim>\<open>JSON.parse(state)[0]\<close> is the first element of the key's array. The states of the
  matrix are numbers, and so is the first element of every key an order-1 model can hold
  (\<open>train\<close> and \<open>updateProbabilities\<close> store keys of one integer). \<open>order1_entries\<close> reads
  the table as the \<^verbatim>\<open>for ... of\<close> loops see it, each key parsed to its from-state; it is
  \<open>None\<close> for a table with a key whose first element is not a number, on which the matrix
  is not modelled.
\<close>

definition parse_first :: "key \<Rightarrow> int option" where
  "parse_first k = (case k of JNum n # _ \<Rightarrow> Some n | _ \<Rightarrow> None)"

fun order1_entries :: "table \<Rightarrow> (int \<times> int list) list option" where
  "order1_entries [] = Some []"
| "order1_entries ((k, nextValues) # t) =
     (case parse_first k of
        None \<Rightarrow> None
      | Some fromState \<Rightarrow> map_option ((#) (fromState, nextValues)) (order1_entries t))"

text \<open>\<^verbatim>\<open>Set.prototype.add\<close>: a set keeps its elements once, in insertion order.\<close>

definition set_add :: "int list \<Rightarrow> int \<Rightarrow> int list" where
  "set_add u x = (if x \<in> set u then u else u @ [x])"

definition collect_states :: "(int \<times> int list) list \<Rightarrow> int list" where
  "collect_states entries =
     foldl (\<lambda>uniqueStates (fromState, nextValues).
              foldl set_add (set_add uniqueStates fromState) nextValues) [] entries"

text \<open>
  The matrix is an object of objects: one row per state, one entry per state in each row.
\<close>

type_synonym 'a matrix = "(int \<times> (int \<times> 'a) list) list"

definition zero_matrix :: "int list \<Rightarrow> nat matrix" where
  "zero_matrix states =
     map (\<lambda>fromState. (fromState, map (\<lambda>toState. (toState, 0)) states)) states"

text \<open>\<^verbatim>\<open>matrix[fromState][toState]++\<close>\<close>

definition increment :: "nat matrix \<Rightarrow> int \<Rightarrow> int \<Rightarrow> nat matrix" where
  "increment M fromState toState =
     map (\<lambda>(f, row).
            if f = fromState
            then (f, map (\<lambda>(t, c). if t = toState then (t, c + 1) else (t, c)) row)
            else (f, row)) M"

definition fill_counts :: "nat matrix \<Rightarrow> (int \<times> int list) list \<Rightarrow> nat matrix" where
  "fill_counts M entries =
     foldl (\<lambda>M' (fromState, nextValues).
              foldl (\<lambda>M'' toState. increment M'' fromState toState) M' nextValues) M entries"

text \<open>
  A matrix value after normalisation is a JavaScript number, idealised as a rational;
  \<open>None\<close> is a value that is not a finite number, which is what a division by zero gives.
\<close>

definition js_divide :: "rat \<Rightarrow> rat \<Rightarrow> rat option" where
  "js_divide a b = (if b = 0 then None else Some (a / b))"

definition normalize_row :: "(int \<times> nat) list \<Rightarrow> (int \<times> rat option) list" where
  "normalize_row row =
     (let total = sum_list (map snd row)
      in if total > 0
         then map (\<lambda>(toState, c). (toState, js_divide (of_nat c) (of_nat total))) row
         else map (\<lambda>(toState, c). (toState, Some (of_nat c))) row)"

datatype matrix_result =
  Unsupported | NonNumericState | Matrix "int list" "rat option matrix"

definition getProbabilityMatrix :: "markov \<Rightarrow> log list \<times> matrix_result" where
  "getProbabilityMatrix m =
     (if order m \<noteq> 1
      then ([Warn ''Probability matrix only available for first-order Markov chains''],
            Unsupported)
      else
        (case order1_entries (transitionTable m) of
           None \<Rightarrow> ([], NonNumericState)
         | Some entries \<Rightarrow>
             (let states = sort (collect_states entries);
                  M = fill_counts (zero_matrix states) entries
              in ([], Matrix states (map (\<lambda>(f, row). (f, normalize_row row)) M)))))"

text \<open>
  The sum of a row as \<^verbatim>\<open>reduce\<close> computes it: a value that is not a number makes the sum
  not a number.
\<close>

definition row_sum :: "(int \<times> rat option) list \<Rightarrow> rat option" where
  "row_sum row =
     foldl (\<lambda>acc (toState, v). case (acc, v) of (Some a, Some x) \<Rightarrow> Some (a + x) | _ \<Rightarrow> None)
       (Some 0) row"

text \<open>
  The tables of an order-1 model: each key is held once and is the array of one integer.
\<close>

definition order1_table :: "table \<Rightarrow> bool" where
  "order1_table t \<longleftrightarrow> distinct (map fst t) \<and> (\<forall>k \<in> fst ` set t. \<exists>n. k = [JNum n])"

section \<open>Cellular automaton (js/cellular-automata.js)\<close>

text \<open>
  The remainder operator \<^verbatim>\<open>%\<close> truncates towards zero and takes the sign of the dividend;
  with a zero divisor the result is \<^verbatim>\<open>NaN\<close>, modelled by \<open>None\<close>. An array read at a
  negative index or at \<^verbatim>\<open>NaN\<close> yields \<^verbatim>\<open>undefined\<close>.
\<close>

definition js_rem :: "int \<Rightarrow> int \<Rightarrow> int option" where
  "js_rem a b = (if b = 0 then None else Some (sgn a * (\<bar>a\<bar> mod \<bar>b\<bar>)))"

definition js_index :: "jsval list \<Rightarrow> int option \<Rightarrow> jsval" where
  "js_index xs i =
     (case i of None \<Rightarrow> Undefined
      | Some j \<Rightarrow> if 0 \<le> j \<and> j < int (length xs) then xs ! nat j else Undefined)"

text \<open>An assignment \<^verbatim>\<open>a[i] = v\<close> past the end of an array extends the array.\<close>

definition js_assign :: "jsval list \<Rightarrow> nat \<Rightarrow> jsval \<Rightarrow> jsval list" where
  "js_assign xs i v =
     (if i < length xs then xs[i := v]
      else xs @ replicate (i - length xs) Undefined @ [v])"

type_synonym row = "jsval list"

record automaton =
  rule :: int
  size_ca :: nat
  ruleTable :: "(string \<times> int) list"
  currentState :: row
  history :: "row list"

text \<open>
  The operands of \<^verbatim>\<open>&\<close> and \<^verbatim>\<open><<\<close> are converted to 32-bit integers.
\<close>

definition rule_bit :: "int \<Rightarrow> nat \<Rightarrow> int" where
  "rule_bit r i = (if (word_of_int r :: 32 word) AND push_bit i 1 \<noteq> 0 then 1 else 0)"

definition padStart3 :: "string \<Rightarrow> string" where
  "padStart3 s = replicate (3 - length s) CHR ''0'' @ s"

definition generateRuleTable :: "int \<Rightarrow> (string \<times> int) list" where
  "generateRuleTable r =
     foldl (\<lambda>table i. table_set table (padStart3 (nat_binary i)) (rule_bit r i)) [] [0..<8]"

definition getNextCellState :: "(string \<times> int) list \<Rightarrow> jsval \<Rightarrow> jsval \<Rightarrow> jsval \<Rightarrow> jsval" where
  "getNextCellState table left center right =
     (let pattern = js_to_string left @ js_to_string center @ js_to_string right
      in case map_of table pattern of Some b \<Rightarrow> Num b | None \<Rightarrow> Undefined)"

text \<open>
  The initial row: a copy of the supplied array when its length is the width, otherwise
  zeros with a one written at the middle index.
\<close>

definition initial_row :: "nat \<Rightarrow> row option \<Rightarrow> row" where
  "initial_row sz initialState =
     (if initialState \<noteq> None \<and> length (the initialState) = sz then the initialState
      else js_assign (replicate sz (Num 0)) (sz div 2) (Num 1))"

definition new_CellularAutomata :: "int \<Rightarrow> nat \<Rightarrow> row option \<Rightarrow> automaton" where
  "new_CellularAutomata r sz initialState =
     (let cur = initial_row sz initialState
      in \<lparr>rule = r, size_ca = sz, ruleTable = generateRuleTable r,
          currentState = cur, history = [cur]\<rparr>)"

subsection \<open>evolve\<close>

text \<open>
  One turn of the loop of \<^verbatim>\<open>evolve\<close>: it reads \<^verbatim>\<open>this.currentState\<close> and writes cell
  \<open>i\<close> of \<^verbatim>\<open>nextState\<close>.
\<close>

definition evolve_cell :: "automaton \<Rightarrow> row \<Rightarrow> nat \<Rightarrow> row" where
  "evolve_cell ca nextState i =
     (let left = js_index (currentState ca)
                   (js_rem (int i - 1 + int (size_ca ca)) (int (size_ca ca)));
          center = js_nth (currentState ca) i;
          right = js_index (currentState ca) (js_rem (int i + 1) (int (size_ca ca)))
      in js_assign nextState i (getNextCellState (ruleTable ca) left center right))"

text \<open>
  \<^verbatim>\<open>evolve\<close> returns the new current state and pushes a copy of it onto the history; no
  array is written after it has been pushed.
\<close>

definition evolve :: "automaton \<Rightarrow> row \<times> automaton" where
  "evolve ca =
     (let nextState = foldl (evolve_cell ca) (replicate (size_ca ca) (Num 0)) [0..<size_ca ca]
      in (nextState, ca\<lparr>currentState := nextState, history := history ca @ [nextState]\<rparr>))"

fun evolveMultiple_loop :: "nat \<Rightarrow> row list \<Rightarrow> automaton \<Rightarrow> row list \<times> automaton" where
  "evolveMultiple_loop 0 results ca = (results, ca)"
| "evolveMultiple_loop (Suc n) results ca =
     (case evolve ca of (r, ca') \<Rightarrow> evolveMultiple_loop n (results @ [r]) ca')"

definition evolveMultiple :: "automaton \<Rightarrow> nat \<Rightarrow> row list \<times> automaton" where
  "evolveMultiple ca steps = evolveMultiple_loop steps [] ca"

definition getHistory :: "automaton \<Rightarrow> row list" where
  "getHistory ca = history ca"

subsection \<open>toRhythm, applyToSequence, applyToPitches\<close>

definition toRhythm :: "automaton \<Rightarrow> int \<Rightarrow> log list \<times> row" where
  "toRhythm ca row =
     (let rowIndex = (if row = - 1 then int (length (history ca)) - 1 else row)
      in if rowIndex < 0 \<or> rowIndex \<ge> int (length (history ca))
         then ([Error ''Invalid row index''], [])
         else ([], history ca ! nat rowIndex))"

text \<open>
  The tiling loop \<^verbatim>\<open>while (full.length < notes.length) full.push(...pattern)\<close>. It is a
  partial function: \<open>None\<close> is the loop that never exits.
\<close>

partial_function (option) tile :: "row \<Rightarrow> row \<Rightarrow> nat \<Rightarrow> row option" where
  "tile full pattern n = (if length full < n then tile (full @ pattern) pattern n else Some full)"

definition js_read :: "'a list \<Rightarrow> nat \<Rightarrow> 'a option" where
  "js_read xs i = (if i < length xs then Some (xs ! i) else None)"

definition keep_onset ::
  "row \<Rightarrow> 'a list \<Rightarrow> 'b list \<Rightarrow> 'a list \<times> 'b option list \<Rightarrow> nat \<Rightarrow> 'a list \<times> 'b option list" where
  "keep_onset rhythm notes durations acc i =
     (case acc of (newNotes, newDurations) \<Rightarrow>
        if js_nth rhythm i = Num 1
        then (newNotes @ [notes ! i], newDurations @ [js_read durations i])
        else (newNotes, newDurations))"

text \<open>
  The result of \<open>applyToSequence\<close> and of \<open>applyToPitches\<close> is \<open>None\<close> when the call never
  returns. A duration read past the end of \<^verbatim>\<open>durations\<close> is \<^verbatim>\<open>undefined\<close>, modelled by
  \<open>None\<close>.
\<close>

definition applyToSequence ::
  "automaton \<Rightarrow> 'a list \<Rightarrow> 'b list \<Rightarrow> int \<Rightarrow> (log list \<times> 'a list \<times> 'b option list) option" where
  "applyToSequence ca notes durations row =
     (case toRhythm ca row of (logs, caRhythm) \<Rightarrow>
        (case tile [] caRhythm (length notes) of
           None \<Rightarrow> None
         | Some fullRhythm \<Rightarrow>
             (let rhythm = slice fullRhythm 0 (length notes)
              in case foldl (keep_onset rhythm notes durations) ([], []) [0..<length notes] of
                   (newNotes, newDurations) \<Rightarrow> Some (logs, newNotes, newDurations))))"

text \<open>
  \<open>mapValue\<close> divides by \<open>inMax - inMin\<close>; with a zero divisor the result is infinite or
  \<^verbatim>\<open>NaN\<close>, modelled by \<open>None\<close>.
\<close>

definition mapValue :: "rat \<Rightarrow> rat \<Rightarrow> rat \<Rightarrow> rat \<Rightarrow> rat \<Rightarrow> rat option" where
  "mapValue v inMin inMax outMin outMax =
     (if inMax - inMin = 0 then None
      else Some (outMin + (outMax - outMin) * (v - inMin) / (inMax - inMin)))"

text \<open>Adding a cell to the running count: \<^verbatim>\<open>undefined\<close> turns the count into \<^verbatim>\<open>NaN\<close>.\<close>

definition add_cell :: "int option \<Rightarrow> jsval \<Rightarrow> int option" where
  "add_cell cnt c =
     (case (cnt, c) of (Some n, Num x) \<Rightarrow> Some (n + x) | _ \<Rightarrow> None)"

definition transpose_note :: "row \<Rightarrow> rat \<Rightarrow> int \<Rightarrow> nat \<Rightarrow> int option" where
  "transpose_note pattern range_t note i =
     (let neighborhood = 3;
          cnt = foldl (\<lambda>cnt j.
                    add_cell cnt
                      (js_index pattern
                         (js_rem (int i + j + int (length pattern)) (int (length pattern)))))
                    (Some 0) [- neighborhood..neighborhood]
      in case cnt of
           None \<Rightarrow> None
         | Some c \<Rightarrow>
             (case mapValue (of_int c) 0 (of_int (neighborhood * 2 + 1)) (- range_t) range_t of
                None \<Rightarrow> None
              | Some transposition \<Rightarrow>
                  Some (max 0 (min 127 (js_round (of_int note + transposition))))))"

definition applyToPitches ::
  "automaton \<Rightarrow> int list \<Rightarrow> int \<Rightarrow> rat \<Rightarrow> (log list \<times> int option list) option" where
  "applyToPitches ca notes row range_t =
     (case toRhythm ca row of (logs, caPattern) \<Rightarrow>
        (case tile [] caPattern (length notes) of
           None \<Rightarrow> None
         | Some fullPattern \<Rightarrow>
             (let pattern = slice fullPattern 0 (length notes)
              in Some (logs,
                   map (\<lambda>i. transpose_note pattern range_t (notes ! i) i) [0..<length notes]))))"

subsection \<open>generatePitches\<close>

function evolve_until :: "automaton \<Rightarrow> int \<Rightarrow> automaton" where
  "evolve_until ca len =
     (if int (length (history ca)) < len then evolve_until (snd (evolve ca)) len else ca)"
  by pat_completeness auto
termination
  by (relation "measure (\<lambda>(ca, len). nat (len - int (length (history ca))))")
     (auto simp: evolve_def Let_def)

declare evolve_until.simps [simp del]

text \<open>
  The pitch of output position \<open>i\<close>, read from the history without changing it. The result
  is \<open>None\<close> when it is not a finite number.
\<close>

definition pitch_at :: "automaton \<Rightarrow> int \<Rightarrow> int \<Rightarrow> nat \<Rightarrow> int option" where
  "pitch_at ca minPitch maxPitch i =
     (let state = history ca ! (i mod length (history ca));
          activeCount = foldl add_cell (Some 0) state
      in case activeCount of
           None \<Rightarrow> None
         | Some c \<Rightarrow>
             if size_ca ca = 0 then None
             else Some \<lfloor>of_int minPitch
                     + (of_int c / of_nat (size_ca ca)) * of_int (maxPitch - minPitch) :: rat\<rfloor>)"

definition generatePitches :: "automaton \<Rightarrow> int \<Rightarrow> int \<Rightarrow> int \<Rightarrow> int option list \<times> automaton" where
  "generatePitches ca len minPitch maxPitch =
     (let ca' = evolve_until ca len
      in (map (pitch_at ca' minPitch maxPitch) [0..<nat len], ca'))"

text \<open>The automaton after \<open>n\<close> calls of \<open>evolve\<close>.\<close>

primrec evolved :: "nat \<Rightarrow> automaton \<Rightarrow> automaton" where
  "evolved 0 ca = ca"
| "evolved (Suc n) ca = evolved n (snd (evolve ca))"

definition zero_draws :: rng where
  "zero_draws k = 0"

definition starting_states_ok :: "markov \<Rightarrow> bool" where
  "starting_states_ok m \<longleftrightarrow> (\<forall>s \<in> set (startingStates m). length s = order m)"

text \<open>
  The copies \<open>updateProbabilities\<close> pushes for the transitions of one from-state, in the
  order of the entries.
\<close>

definition copies :: "double_mul \<Rightarrow> (int \<times> rat) list \<Rightarrow> int list" where
  "copies mul transitions =
     concat (map (\<lambda>(toState, probability).
       if probability \<le> 0 then []
       else replicate (nat (js_round (mul probability 100))) toState)
       transitions)"

definition stored :: "table \<Rightarrow> key \<Rightarrow> int list" where
  "stored t k = (case table_get t k of Some vs \<Rightarrow> vs | None \<Rightarrow> [])"

text \<open>The current row of an automaton of positive width has that width.\<close>

definition row_fits :: "automaton \<Rightarrow> bool" where
  "row_fits ca \<longleftrightarrow> (0 < size_ca ca \<longrightarrow> length (currentState ca) = size_ca ca)"

text \<open>
  The cell \<open>evolve\<close> computes for index \<open>i\<close>: the rule table looked up on the current
  row's cells at \<open>i - 1\<close>, \<open>i\<close> and \<open>i + 1\<close>.
\<close>

definition next_cell :: "automaton \<Rightarrow> nat \<Rightarrow> jsval" where
  "next_cell ca i =
     getNextCellState (ruleTable ca)
       (js_index (currentState ca) (js_rem (int i - 1 + int (size_ca ca)) (int (size_ca ca))))
       (js_nth (currentState ca) i)
       (js_index (currentState ca) (js_rem (int i + 1) (int (size_ca ca))))"

text \<open>
  The matrix of counts \<open>K\<close> over a list of states, and the number of times the fill loop
  increments the entry of a from-state and a to-state.
\<close>

definition counts_matrix :: "(int \<Rightarrow> int \<Rightarrow> nat) \<Rightarrow> int list \<Rightarrow> nat matrix" where
  "counts_matrix K states =
     map (\<lambda>fromState. (fromState, map (\<lambda>toState. (toState, K fromState toState)) states)) states"

definition occurrences :: "(int \<times> int list) list \<Rightarrow> int \<Rightarrow> int \<Rightarrow> nat" where
  "occurrences entries f t =
     sum_list (map (\<lambda>(fromState, nextValues).
                      if fromState = f then count_list nextValues t else 0) entries)"

section \<open>Verified properties of the L-System\<close>

lemma foldl_rewrite_symbol:
  "foldl (rewrite_symbol rs) acc cur =
     acc @ concat (map (\<lambda>c. case rs c of Some r \<Rightarrow> if r \<noteq> [] then r else [c] | None \<Rightarrow> [c]) cur)"
  by (induction cur arbitrary: acc) (auto simp: rewrite_symbol_def split: option.splits)

lemma rewrite_string_spec:
  assumes "\<forall>c r. rs c = Some r \<longrightarrow> r \<noteq> []"
  shows "rewrite_string rs cur = spec_rewrite rs cur"
proof -
  have "(\<lambda>c. case rs c of Some r \<Rightarrow> if r \<noteq> [] then r else [c] | None \<Rightarrow> [c])
      = (\<lambda>c. case rs c of Some r \<Rightarrow> r | None \<Rightarrow> [c])"
    using assms by (auto split: option.splits)
  then show ?thesis
    by (simp add: rewrite_string_def spec_rewrite_def foldl_rewrite_symbol)
qed

lemma ls_generate_loop_funpow: "ls_generate_loop rs n cur = ((rewrite_string rs) ^^ n) cur"
  by (induction n arbitrary: cur) (simp_all add: funpow_swap1)

text \<open>
  For a grammar none of whose rules has an empty replacement, \<open>generate\<close> is the iterated
  rewriting map of the specification, and the Fibonacci grammar gives ABA after two
  iterations.
\<close>

lemma ls_generate_nonerasing:
  assumes "\<forall>c r. rules L c = Some r \<longrightarrow> r \<noteq> []"
  shows "fst (ls_generate L n) = spec_generate L n"
proof -
  have "rewrite_string (rules L) = spec_rewrite (rules L)"
    using rewrite_string_spec [OF assms] by blast
  then show ?thesis
    by (simp add: ls_generate_def spec_generate_def ls_generate_loop_funpow Let_def)
qed

lemma ls_generate_fibonacci:
  "fst (ls_generate (new_LSystem ''A'' [CHR ''A'' \<mapsto> ''AB'', CHR ''B'' \<mapsto> ''A'']) 2) = ''ABA''"
  by (simp add: ls_generate_def new_LSystem_def rewrite_string_def rewrite_symbol_def
      numeral_2_eq_2 Let_def)

text \<open>
  C4: \<open>generate\<close> is claimed to be the iterated rewriting map that replaces a symbol by
  its rule's replacement whenever a rule exists. For the grammar with axiom A and the rule
  that replaces A by the empty string, a rule exists for A, yet one iteration of the code
  keeps the A where the rewriting map of the specification gives the empty string: the
  truthiness test takes the empty replacement for a missing rule.
\<close>

theorem ls_generate_keeps_symbol_of_erasing_rule:
  "fst (ls_generate (new_LSystem ''A'' [CHR ''A'' \<mapsto> '''']) 1) = ''A''
   \<and> spec_generate (new_LSystem ''A'' [CHR ''A'' \<mapsto> '''']) 1 = ''''"
  by (simp add: ls_generate_def new_LSystem_def rewrite_string_def rewrite_symbol_def
      spec_generate_def spec_rewrite_def Let_def)

lemma slice_nth_upt:
  "e \<le> length xs \<Longrightarrow> slice xs s e = map (\<lambda>k. xs ! k) [s..<e]"
  by (auto simp: slice_def list_eq_iff_nth_eq)

lemma ceil_div_cover:
  assumes "0 < m"
  shows "n \<le> m * ceil_div n m"
proof -
  have "(n + m - 1) mod m < m"
    using assms by simp
  moreover have "m * ((n + m - 1) div m) + (n + m - 1) mod m = n + m - 1"
    by simp
  ultimately show ?thesis
    unfolding ceil_div_def by linarith
qed

lemma window_index:
  assumes "0 < s" "i * s \<le> k" "k < (i + 1) * s"
  shows "k div s = (i::nat)"
proof -
  have "k div s \<ge> i" using assms(1,2) by (simp add: less_eq_div_iff_mult_less_eq)
  moreover have "k div s < i + 1" using assms(1,3) by (simp add: div_less_iff_less_mult)
  ultimately show ?thesis by simp
qed

lemma transform_segment_window:
  assumes "i * s < length sequence" "e = min ((i + 1) * s) (length sequence)" "0 < s"
  shows "transform_segment ts (res ! i) (slice sequence (i * s) e)
       = map (window_value res sequence ts s) [i * s..<e]"
proof -
  have e: "e \<le> length sequence" using assms(2) by simp
  have d: "k div s = i" if "k \<in> set [i * s..<e]" for k
    using that assms(2,3) by (intro window_index) auto
  show ?thesis
    unfolding slice_nth_upt [OF e] transform_segment_def
    by (cases "ts (res ! i)") (auto simp: window_value_def d)
qed

lemma applyToMusic_loop_inv:
  assumes "length sequence \<le> length res * s" "i \<le> length res"
    "acc = map (window_value res sequence ts s) [0..<min (i * s) (length sequence)]"
  shows "applyToMusic_loop res sequence ts s i acc
       = map (window_value res sequence ts s) [0..<length sequence]"
  using assms
proof (induction res sequence ts s i acc rule: applyToMusic_loop.induct)
  case (1 res sequence ts s i acc)
  let ?n = "length sequence"
  show ?case
  proof (cases "i < length res")
    case False
    with "1.prems" have "i = length res" by simp
    with "1.prems" have "min (i * s) ?n = ?n" by simp
    with False "1.prems" show ?thesis by (subst applyToMusic_loop.simps) simp
  next
    case True
    show ?thesis
    proof (cases "i * s \<ge> ?n")
      case True
      then have "min (i * s) ?n = ?n" by simp
      with True \<open>i < length res\<close> "1.prems" show ?thesis
        by (subst applyToMusic_loop.simps) simp
    next
      case False
      define e where "e = min ((i + 1) * s) ?n"
      have seg: "transform_segment ts (res ! i) (slice sequence (i * s) e)
           = map (window_value res sequence ts s) [i * s..<e]"
      proof (rule transform_segment_window)
        show "i * s < ?n" using False by simp
        show "e = min ((i + 1) * s) ?n" by (simp add: e_def)
        show "0 < s" using "1.prems"(1) False by (cases s) auto
      qed
      have le: "i * s \<le> e" using False by (simp add: e_def)
      have "acc @ transform_segment ts (res ! i) (slice sequence (i * s) e)
          = map (window_value res sequence ts s) ([0..<i * s] @ [i * s..<e])"
        using "1.prems"(3) False seg by simp
      also have "[0..<i * s] @ [i * s..<e] = [0..<e]"
        using le by (metis upt_add_eq_append le_add_diff_inverse zero_le add_0)
      finally have acc': "acc @ transform_segment ts (res ! i) (slice sequence (i * s) e)
          = map (window_value res sequence ts s) [0..<min ((i + 1) * s) ?n]"
        by (simp add: e_def)
      have "applyToMusic_loop res sequence ts s (i + 1)
              (acc @ transform_segment ts (res ! i) (slice sequence (i * s) e))
          = map (window_value res sequence ts s) [0..<?n]"
        using "1.IH" [OF True refl refl refl] False True "1.prems"(1) acc'
        by (simp add: e_def)
      then show ?thesis
        using True False by (subst applyToMusic_loop.simps) (simp add: e_def Let_def)
    qed
  qed
qed

lemma unique_window:
  assumes "0 < m" "k < n"
  shows "\<exists>!i. i < m \<and> in_window (ceil_div n m) n i k"
proof -
  let ?s = "ceil_div n m"
  have cover: "n \<le> m * ?s" using ceil_div_cover [OF assms(1)] .
  have s: "0 < ?s" using cover assms(2) by (cases ?s) auto
  have "k div ?s < m"
    using cover assms(2) s by (metis less_mult_imp_div_less mult.commute order_less_le_trans)
  moreover have "in_window ?s n (k div ?s) k"
    using s assms(2) by (simp add: in_window_def dividend_less_times_div mult.commute)
  moreover have "i = k div ?s" if "in_window ?s n i k" for i
    using that s window_index [of ?s i k] by (simp add: in_window_def)
  ultimately show ?thesis by blast
qed

text \<open>
  C3: for a non-empty derivation and any input sequence, the output of \<open>applyToMusic\<close>
  has the length of the input; with \<open>segmentSize = ceil (len sequence / len derivation)\<close>
  every input index lies in exactly one window, and the output at that index is the input
  symbol processed by the transform of that window's derivation symbol.
\<close>

theorem applyToMusic_covers_input:
  assumes "result L \<noteq> []"
  shows "length (snd (applyToMusic L sequence transformations)) = length sequence
     \<and> (\<forall>k < length sequence.
           (\<exists>!i. i < length (result L)
                \<and> in_window (ceil_div (length sequence) (length (result L))) (length sequence) i k)
         \<and> snd (applyToMusic L sequence transformations) ! k
             = window_value (result L) sequence (effective_transforms transformations)
                 (ceil_div (length sequence) (length (result L))) k)"
proof -
  let ?s = "ceil_div (length sequence) (length (result L))"
  let ?ts = "effective_transforms transformations"
  have m: "0 < length (result L)" using assms by simp
  have "applyToMusic_loop (result L) sequence ?ts ?s 0 []
      = map (window_value (result L) sequence ?ts ?s) [0..<length sequence]"
    by (rule applyToMusic_loop_inv) (use ceil_div_cover [OF m] in simp_all)
  then have out: "snd (applyToMusic L sequence transformations)
      = map (window_value (result L) sequence ?ts ?s) [0..<length sequence]"
    using assms by (simp add: applyToMusic_def Let_def)
  show ?thesis
    unfolding out using unique_window [OF m] by simp
qed

theorem applyToMusic_covers_input_witness:
  "result (new_LSystem ''AB'' Map.empty) \<noteq> []
   \<and> length (snd (applyToMusic (new_LSystem ''AB'' Map.empty) [60, 62, 64] None)) = 3
   \<and> (2::nat) < length [60, 62, 64 :: int]
   \<and> snd (applyToMusic (new_LSystem ''AB'' Map.empty) [60, 62, 64] None) ! 2 = 63"
proof -
  let ?L = "new_LSystem ''AB'' Map.empty"
  let ?out = "snd (applyToMusic ?L [60, 62, 64] None)"
  have h: "result ?L \<noteq> []"
    by (simp add: new_LSystem_def)
  have "ceil_div 3 2 = 2"
    by (simp add: ceil_div_def)
  then have s: "ceil_div (length [60, 62, 64 :: int]) (length (result ?L)) = 2"
    by (simp add: new_LSystem_def numeral_3_eq_3 numeral_2_eq_2)
  have k: "(2::nat) < length [60, 62, 64 :: int]" by simp
  note inst = applyToMusic_covers_input [OF h, of "[60, 62, 64]" None]
  from inst have len: "length ?out = 3" by simp
  from inst k have "?out ! 2
      = window_value (result ?L) [60, 62, 64] (effective_transforms None)
          (ceil_div (length [60, 62, 64 :: int]) (length (result ?L))) 2"
    by blast
  also have "\<dots> = 63"
    unfolding s
    by (simp add: window_value_def effective_transforms_def defaultTransform_def new_LSystem_def)
  finally show ?thesis using h len k by simp
qed

section \<open>Verified properties of the Markov chain\<close>

subsection \<open>Table operations\<close>

lemma table_get_set:
  "table_get (table_set t k v) k' = (if k' = k then Some v else table_get t k')"
  by (induction t) (auto simp: table_get_def)

lemma table_get_ensure:
  "table_get (table_ensure t k) k' =
     (if k' = k then Some (case table_get t k of Some vs \<Rightarrow> vs | None \<Rightarrow> []) else table_get t k')"
  by (auto simp: table_ensure_def table_has_def table_get_set) (auto simp: table_get_def)

lemma table_get_push:
  "table_get (table_push t k x) k' =
     (if k' = k then map_option (\<lambda>vs. vs @ [x]) (table_get t k) else table_get t k')"
  by (auto simp: table_push_def table_get_set split: option.splits)

lemma table_set_nonempty: "table_set t k v \<noteq> []"
  by (cases t) (auto split: if_splits)

lemma train_step_nonempty: "train_step ord sequence t i \<noteq> []"
  by (auto simp: train_step_def Let_def table_push_def table_get_ensure table_set_nonempty
      split: option.splits)

text \<open>
  C8: for a sequence no longer than the order, \<open>train\<close> reports one warning and returns
  the model as it was: no starting state is recorded and the transition table is
  unchanged.
\<close>

theorem mc_train_short_sequence_noop:
  assumes "length sequence \<le> order m"
  shows "mc_train m sequence =
           ([Warn (''Sequence too short for Markov order '' @ nat_decimal (order m))], m)
       \<and> startingStates (snd (mc_train m sequence)) = startingStates m
       \<and> transitionTable (snd (mc_train m sequence)) = transitionTable m"
  using assms by (simp add: mc_train_def)

theorem mc_train_short_sequence_noop_witness:
  "length [60, 62 :: int] \<le> order (new_MarkovChain 2)
   \<and> mc_train (new_MarkovChain 2) [60, 62] =
       ([Warn ''Sequence too short for Markov order 2''], new_MarkovChain 2)"
proof -
  have h: "length [60, 62 :: int] \<le> order (new_MarkovChain 2)"
    by (simp add: new_MarkovChain_def)
  have "nat_decimal 2 = ''2''"
    by (simp add: nat_decimal.simps digit_char_def)
  then show ?thesis
    using h mc_train_short_sequence_noop [OF h] by (simp add: new_MarkovChain_def)
qed

subsection \<open>generate\<close>

lemma generate_turn_pushes:
  "startingStates m \<noteq> [] \<Longrightarrow> generate_turn m d sequence \<noteq> Break"
  by (auto simp: generate_turn_def Let_def split: option.splits)

lemma mc_generate_loop_length:
  assumes "startingStates m \<noteq> []"
  shows "int (length (snd (mc_generate_loop m rnd k len sequence)))
       = max len (int (length sequence))"
  using assms
proof (induction m rnd k len sequence rule: mc_generate_loop.induct)
  case (1 m rnd k len sequence)
  show ?case
  proof (cases "int (length sequence) < len")
    case False
    then show ?thesis by (subst mc_generate_loop.simps) simp
  next
    case True
    obtain v where v: "generate_turn m (rnd k) sequence = Push v"
      using generate_turn_pushes [OF "1.prems"]
      by (cases "generate_turn m (rnd k) sequence") auto
    have "int (length (snd (mc_generate_loop m rnd (k + 1) len (sequence @ [v]))))
        = max len (int (length (sequence @ [v])))"
      using "1.IH" [OF True v "1.prems"] .
    then show ?thesis
      using True v by (subst mc_generate_loop.simps) simp
  qed
qed

lemma train_table_nonempty:
  assumes "order m < length sequence"
  shows "transitionTable (snd (mc_train m sequence)) \<noteq> []"
proof -
  obtain n where n: "length sequence - order m = Suc n"
    using assms by (cases "length sequence - order m") auto
  have "foldl (train_step (order m) sequence) (transitionTable m) [0..<Suc n] \<noteq> []"
    by (simp add: train_step_nonempty)
  then show ?thesis
    using assms n by (simp add: mc_train_def)
qed

lemma train_starting_states:
  assumes "starting_states_ok m"
  shows "starting_states_ok (snd (mc_train m sequence))"
  using assms by (auto simp: mc_train_def starting_states_ok_def slice_def)

lemma train_records_starting_state:
  assumes "order m < length sequence"
  shows "startingStates (snd (mc_train m sequence)) \<noteq> []"
  using assms by (simp add: mc_train_def)

lemma random_index_less: "0 < n \<Longrightarrow> random_index d n < n"
  by (simp add: random_index_def)

lemma mc_generate_length:
  assumes "starting_states_ok m" "startingStates m \<noteq> []" "transitionTable m \<noteq> []"
  shows "int (length (snd (mc_generate m rnd len startState))) = max len (int (order m))"
proof (cases "startState \<noteq> None \<and> length (the startState) = order m")
  case True
  then show ?thesis
    using assms by (simp add: mc_generate_def mc_generate_loop_length)
next
  case False
  let ?s = "startingStates m ! random_index (rnd 0) (length (startingStates m))"
  have "?s \<in> set (startingStates m)"
    using assms(2) by (simp add: random_index_less)
  then have "length ?s = order m"
    using assms(1) by (simp add: starting_states_ok_def)
  then show ?thesis
    using False assms by (simp add: mc_generate_def Let_def mc_generate_loop_length)
qed

text \<open>
  C2 as amended: after training on a sequence longer than the order, \<open>generate\<close> returns
  exactly \<open>max length order\<close> symbols, whatever the draws and the start context: exactly
  \<open>length\<close> symbols when \<open>length\<close> is at least the order, and the seed of \<open>order\<close> symbols
  when it is less. It never returns fewer than \<open>length\<close> symbols.
\<close>

theorem mc_generate_length_after_training:
  assumes "starting_states_ok m0" "order m0 + 1 \<le> length sequence"
  shows "startingStates (snd (mc_train m0 sequence)) \<noteq> []
       \<and> int (length (snd (mc_generate (snd (mc_train m0 sequence)) rnd len startState)))
           = max len (int (order (snd (mc_train m0 sequence))))"
proof -
  have lt: "order m0 < length sequence" using assms(2) by simp
  show ?thesis
    using mc_generate_length [OF train_starting_states [OF assms(1)]
        train_records_starting_state [OF lt] train_table_nonempty [OF lt]]
      train_records_starting_state [OF lt]
    by simp
qed

theorem mc_generate_length_after_training_witness:
  "starting_states_ok (new_MarkovChain 1)
   \<and> order (new_MarkovChain 1) + 1 \<le> length [60, 62, 64, 62, 60 :: int]
   \<and> int (length (snd (mc_generate (snd (mc_train (new_MarkovChain 1) [60, 62, 64, 62, 60]))
                         zero_draws 5 None))) = 5"
proof -
  have a: "starting_states_ok (new_MarkovChain 1)"
    by (simp add: starting_states_ok_def new_MarkovChain_def)
  have b: "order (new_MarkovChain 1) + 1 \<le> length [60, 62, 64, 62, 60 :: int]"
    by (simp add: new_MarkovChain_def)
  have "order (snd (mc_train (new_MarkovChain 1) [60, 62, 64, 62, 60])) = 1"
    by (simp add: mc_train_def new_MarkovChain_def)
  then show ?thesis
    using a b mc_generate_length_after_training [OF a b, of zero_draws 5 None] by simp
qed

text \<open>
  C2 as stated fails: an order-1 model trained on a sequence of two symbols has a starting
  state, and \<open>generate 0\<close> returns its seed of one symbol, more than the length asked for.
\<close>

theorem mc_generate_overshoots_counterexample:
  "order (new_MarkovChain 1) + 1 \<le> length [60, 62 :: int]
   \<and> startingStates (snd (mc_train (new_MarkovChain 1) [60, 62])) = [[60]]
   \<and> snd (mc_generate (snd (mc_train (new_MarkovChain 1) [60, 62])) zero_draws 0 None) = [Num 60]
   \<and> int (length (snd (mc_generate (snd (mc_train (new_MarkovChain 1) [60, 62]))
                         zero_draws 0 None))) > 0"
  by (simp add: mc_train_def new_MarkovChain_def mc_generate_def slice_def train_step_def
      table_ensure_def table_has_def table_push_def table_get_def stringify_def to_json_def
      random_index_def zero_draws_def Let_def mc_generate_loop.simps [of _ _ _ 0])

section \<open>Verified properties of updateProbabilities\<close>

lemma stringify_single_inj: "stringify [Num f] = stringify [Num g] \<longleftrightarrow> f = g"
  by (simp add: stringify_def to_json_def)

lemma table_get_push_copies:
  "table_get (foldl (\<lambda>tab i. table_push tab k x) t [0..<n]) k' =
     (if k' = k then map_option (\<lambda>vs. vs @ replicate n x) (table_get t k) else table_get t k')"
proof (induction n)
  case 0
  then show ?case by (simp add: option.map_ident)
next
  case (Suc n)
  then show ?case
    by (cases "table_get t k") (auto simp: table_get_push replicate_append_same)
qed

lemma table_get_update_transition:
  "table_get (update_transition mul k t (toState, p)) k' =
     (if k' \<noteq> k \<or> p \<le> 0 then table_get t k'
      else Some (stored t k @ replicate (nat (js_round (mul p 100))) toState))"
  by (simp add: update_transition_def Let_def table_get_push_copies table_get_ensure stored_def)

lemma table_get_update_transitions:
  "table_get (foldl (update_transition mul k) t transitions) k' =
     (if k' \<noteq> k \<or> (\<forall>(toState, p) \<in> set transitions. p \<le> 0) then table_get t k'
      else Some (stored t k @ copies mul transitions))"
proof (induction transitions arbitrary: t)
  case Nil
  then show ?case by simp
next
  case (Cons e transitions)
  obtain toState p where e: "e = (toState, p)" by (cases e)
  show ?case
    unfolding e foldl_Cons Cons.IH
    by (auto simp: table_get_update_transition copies_def stored_def)
qed

lemma table_get_update_from:
  "table_get (update_from mul t (f, transitions)) k' =
     (if k' \<noteq> stringify [Num f] \<or> (\<forall>(toState, p) \<in> set transitions. p \<le> 0)
      then table_get t k'
      else Some (stored t (stringify [Num f]) @ copies mul transitions))"
  by (simp add: update_from_def table_get_update_transitions)

lemma table_get_update_all_other:
  assumes "\<forall>f \<in> fst ` set np. k \<noteq> stringify [Num f]"
  shows "table_get (foldl (update_from mul) t np) k = table_get t k"
  using assms
proof (induction np arbitrary: t)
  case Nil
  then show ?case by simp
next
  case (Cons e np)
  obtain f tr where e: "e = (f, tr)" by (cases e)
  from Cons.prems have "k \<noteq> stringify [Num f]" by (simp add: e)
  moreover have "table_get (foldl (update_from mul) (update_from mul t (f, tr)) np) k
      = table_get (update_from mul t (f, tr)) k"
    using Cons.prems by (intro Cons.IH) simp
  ultimately show ?case by (simp add: e table_get_update_from)
qed

lemma table_get_update_all_declared:
  assumes "distinct (map fst np)" "(f, tr) \<in> set np"
  shows "table_get (foldl (update_from mul) t np) (stringify [Num f]) =
     (if (\<forall>(toState, p) \<in> set tr. p \<le> 0) then table_get t (stringify [Num f])
      else Some (stored t (stringify [Num f]) @ copies mul tr))"
  using assms
proof (induction np arbitrary: t)
  case Nil
  then show ?case by simp
next
  case (Cons e np)
  obtain g tr' where e: "e = (g, tr')" by (cases e)
  show ?case
  proof (cases "(f, tr) = e")
    case True
    then have g: "g = f" "tr' = tr" by (simp_all add: e)
    have "\<forall>h \<in> fst ` set np. stringify [Num f] \<noteq> stringify [Num h]"
      using Cons.prems(1) by (auto simp: e g stringify_single_inj)
    then have "table_get (foldl (update_from mul) (update_from mul t (f, tr)) np) (stringify [Num f])
        = table_get (update_from mul t (f, tr)) (stringify [Num f])"
      by (rule table_get_update_all_other)
    then show ?thesis by (simp add: e g table_get_update_from)
  next
    case False
    then have mem: "(f, tr) \<in> set np" using Cons.prems(2) by simp
    then have "f \<in> fst ` set np" by force
    then have ne: "g \<noteq> f" using Cons.prems(1) by (auto simp: e)
    have d: "distinct (map fst np)" using Cons.prems(1) by simp
    have same: "table_get (update_from mul t (g, tr')) (stringify [Num f])
        = table_get t (stringify [Num f])"
      using ne by (simp add: table_get_update_from stringify_single_inj)
    show ?thesis
      using Cons.IH [OF d mem, where t = "update_from mul t (g, tr')"] same
      by (simp add: e stored_def)
  qed
qed

lemma table_keys_update_all:
  assumes "table_get (foldl (update_from mul) t np) k \<noteq> None"
  shows "table_get t k \<noteq> None \<or> (\<exists>f \<in> fst ` set np. k = stringify [Num f])"
proof (cases "\<forall>f \<in> fst ` set np. k \<noteq> stringify [Num f]")
  case True
  then have "table_get (foldl (update_from mul) t np) k = table_get t k"
    by (rule table_get_update_all_other)
  with assms show ?thesis by simp
next
  case False
  then show ?thesis by blast
qed

lemma count_copies:
  assumes "distinct (map fst transitions)"
  shows "count (mset (copies mul transitions)) x = declared_copies mul transitions x"
  using assms
proof (induction transitions)
  case Nil
  then show ?case by (simp add: copies_def declared_copies_def)
next
  case (Cons e transitions)
  obtain toState p where e: "e = (toState, p)" by (cases e)
  have IH: "count (mset (copies mul transitions)) x = declared_copies mul transitions x"
    using Cons by simp
  have absent: "declared_copies mul transitions toState = 0"
    using Cons.prems by (simp add: e declared_copies_def map_of_eq_None_iff [THEN iffD2])
  have split: "copies mul (e # transitions)
      = (if p \<le> 0 then [] else replicate (nat (js_round (mul p 100))) toState) @ copies mul transitions"
    by (simp add: copies_def e)
  show ?case
    unfolding split using IH absent
    by (auto simp: e declared_copies_def)
qed

lemma declared_copies_nonpositive:
  assumes "\<forall>(toState, p) \<in> set transitions. p \<le> 0"
  shows "declared_copies mul transitions x = 0"
proof (cases "map_of transitions x")
  case None
  then show ?thesis by (simp add: declared_copies_def)
next
  case (Some p)
  then have "(x, p) \<in> set transitions" by (rule map_of_SomeD)
  with assms have "p \<le> 0" by auto
  with Some show ?thesis by (simp add: declared_copies_def)
qed

lemma successors_update_all:
  assumes "distinct (map fst np)" "(f, tr) \<in> set np" "distinct (map fst tr)"
  shows "count (successors (foldl (update_from mul) [] np) f) x = declared_copies mul tr x"
proof (cases "\<forall>(toState, p) \<in> set tr. p \<le> 0")
  case True
  then have "table_get (foldl (update_from mul) [] np) (stringify [Num f]) = None"
    using table_get_update_all_declared [OF assms(1,2), where t = "[]"] by (simp add: table_get_def)
  then show ?thesis
    using True by (simp add: successors_def declared_copies_nonpositive)
next
  case False
  then have "table_get (foldl (update_from mul) [] np) (stringify [Num f]) = Some (copies mul tr)"
    using table_get_update_all_declared [OF assms(1,2), where t = "[]"]
    by (simp add: table_get_def stored_def)
  then show ?thesis
    by (simp add: successors_def count_copies [OF assms(3)])
qed

lemma double_below_200th:
  assumes "is_double p" "p < 1 / 200"
  shows "p \<le> 5764607523034234 / 2 ^ 60"
proof -
  obtain m :: int and s :: nat where m: "\<bar>m\<bar> < 2 ^ 53" and s: "s \<le> 2045"
    and p: "p = of_int m * 2 ^ s / 2 ^ 1074"
    using assms(1) unfolding is_double_def by blast
  show ?thesis
  proof (cases "s < 1014")
    case True
    have "of_int m * 2 ^ s \<le> (2 ^ 53 :: rat) * 2 ^ 1013"
    proof (cases "m \<le> 0")
      case True
      then have "of_int m * (2 ^ s :: rat) \<le> 0"
        by (simp add: mult_nonpos_nonneg)
      also have "(0 :: rat) \<le> 2 ^ 53 * 2 ^ 1013" by simp
      finally show ?thesis .
    next
      case False
      have "m < 2 ^ 53" using m by simp
      then have "(of_int m :: rat) < of_int (2 ^ 53)" by (simp only: of_int_less_iff)
      then have a: "(of_int m :: rat) \<le> 2 ^ 53" by simp
      have b: "(2 ^ s :: rat) \<le> 2 ^ 1013"
        using True by (intro power_increasing) simp_all
      show ?thesis
        using a b False by (intro mult_mono) simp_all
    qed
    then have "p \<le> (2 ^ 53 :: rat) * 2 ^ 1013 / 2 ^ 1074"
      unfolding p by (intro divide_right_mono) simp_all
    also have "(2 ^ 53 :: rat) * 2 ^ 1013 / 2 ^ 1074 = 1 / 2 ^ 8"
      by (simp add: power_add [symmetric] flip: power_diff)
    also have "(1 / 2 ^ 8 :: rat) \<le> 5764607523034234 / 2 ^ 60" by simp
    finally show ?thesis .
  next
    case False
    define j where "j = s - 1014"
    have sj: "s = j + 1014" using False by (simp add: j_def)
    define k where "k = m * 2 ^ j"
    have "(2 ^ s :: rat) / 2 ^ 1074 = 2 ^ j / 2 ^ 60"
    proof -
      have "(2 ^ 1074 :: rat) = 2 ^ 1014 * 2 ^ 60" by (simp flip: power_add)
      then show ?thesis unfolding sj power_add by simp
    qed
    then have pk: "p = of_int k / 2 ^ 60"
      unfolding p k_def by (simp add: field_simps)
    from assms(2) have "of_int k * 200 < (2 ^ 60 :: rat)"
      unfolding pk by (simp add: field_simps)
    then have "(of_int (k * 200) :: rat) < of_int (2 ^ 60)" by simp
    then have "k * 200 < 2 ^ 60" by (simp only: of_int_less_iff)
    then have "k \<le> 5764607523034234" by simp
    then have "(of_int k :: rat) \<le> of_int 5764607523034234" by (simp only: of_int_le_iff)
    then show ?thesis
      unfolding pk by (intro divide_right_mono) simp_all
  qed
qed

lemma scaled_quotient:
  assumes "j \<le> N"
  shows "of_int m * 2 ^ (N - j) / 2 ^ N = (of_int m / 2 ^ j :: rat)"
proof -
  have "(2 ^ (N - j) :: rat) = 2 ^ N / 2 ^ j"
    using assms by (simp add: power_diff)
  then show ?thesis by simp
qed

lemma is_doubleI:
  assumes "\<bar>m\<bar> < 2 ^ 53" "j \<le> 1074" "x = of_int m / 2 ^ j"
  shows "is_double x"
proof -
  have "x = of_int m * 2 ^ (1074 - j) / 2 ^ 1074"
    unfolding assms(3) using scaled_quotient [OF assms(2), of m] by (simp only:)
  moreover have "1074 - j \<le> 2045" by simp
  ultimately show ?thesis
    unfolding is_double_def using assms(1) by blast
qed

lemma is_double_below_half: "is_double (1 / 2 - 1 / 2 ^ 54)"
proof (rule is_doubleI)
  show "\<bar>2 ^ 53 - 1 :: int\<bar> < 2 ^ 53" by simp
  show "(54 :: nat) \<le> 1074" by simp
  show "(1 / 2 - 1 / 2 ^ 54 :: rat) = of_int (2 ^ 53 - 1) / 2 ^ 54" by simp
qed

lemma js_round_small_double:
  assumes "0 < p" "p < 1 / 200" "is_double p" "nearest_double y (p * 100)"
  shows "js_round y = 0"
proof -
  let ?D = "1 / 2 - 1 / 2 ^ 54 :: rat"
  have "p \<le> 5764607523034234 / 2 ^ 60"
    using assms(3,2) by (rule double_below_200th)
  then have x: "p * 100 \<le> ?D" by simp
  have "\<bar>y - p * 100\<bar> \<le> \<bar>?D - p * 100\<bar>"
    using assms(4) is_double_below_half unfolding nearest_double_def by blast
  then have "\<bar>y - p * 100\<bar> \<le> ?D - p * 100"
    using x by simp
  then have "y \<le> ?D" "2 * (p * 100) - ?D \<le> y"
    by linarith+
  then have "0 \<le> y + 1 / 2" "y + 1 / 2 < 1"
    using assms(1) by simp_all
  then show ?thesis
    unfolding js_round_def by (simp add: floor_eq_iff)
qed

lemma copies_small:
  assumes "\<forall>(toState, p) \<in> set transitions.
             0 < p \<and> p < 1 / 200 \<and> is_double p \<and> nearest_double (mul p 100) (p * 100)"
  shows "copies mul transitions = []"
  using assms by (induction transitions) (auto simp: copies_def js_round_small_double)

lemma key_present_iff:
  assumes "distinct (map fst np)" "(f, tr) \<in> set np"
  shows "table_has (foldl (update_from mul) [] np) (stringify [Num f])
       \<longleftrightarrow> (\<exists>(toState, p) \<in> set tr. 0 < p)"
proof (cases "\<forall>(toState, p) \<in> set tr. p \<le> 0")
  case True
  then have "table_get (foldl (update_from mul) [] np) (stringify [Num f]) = None"
    using table_get_update_all_declared [OF assms, where t = "[]"] by (simp add: table_get_def)
  moreover have "\<not> (\<exists>(toState, p) \<in> set tr. 0 < p)"
    using True by fastforce
  ultimately show ?thesis
    by (simp add: table_has_def table_get_def)
next
  case False
  have "table_get (foldl (update_from mul) [] np) (stringify [Num f]) =
     (if (\<forall>(toState, p) \<in> set tr. p \<le> 0) then table_get [] (stringify [Num f])
      else Some (stored [] (stringify [Num f]) @ copies mul tr))"
    by (rule table_get_update_all_declared [OF assms])
  then have "table_get (foldl (update_from mul) [] np) (stringify [Num f])
      = Some (stored [] (stringify [Num f]) @ copies mul tr)"
    by (simp only: False if_False)
  then have "table_get (foldl (update_from mul) [] np) (stringify [Num f]) \<noteq> None"
    by simp
  moreover have "\<exists>(toState, p) \<in> set tr. 0 < p"
    using False by fastforce
  ultimately show ?thesis
    by (simp add: table_has_def table_get_def)
qed

text \<open>
  C7: on an order-1 model \<open>updateProbabilities\<close> builds the new table from the argument
  alone, whatever the previous table held. Every key of the new table is a declared
  from-state. A declared from-state has a key exactly when one of its to-states is declared
  with a strictly positive probability, and its successor multiset holds exactly
  \<open>round (probability * 100)\<close> copies of each to-state declared with a strictly positive
  probability and no copy of any other symbol, the product being the double product the
  engine computes. On a model of another order it returns the model unchanged.
\<close>

theorem updateProbabilities_rebuilds_table:
  assumes "distinct (map fst np)" "\<forall>(f, tr) \<in> set np. distinct (map fst tr)"
  shows "(order m = 1 \<longrightarrow>
            (\<forall>(f, tr) \<in> set np.
               (table_has (transitionTable (snd (updateProbabilities mul m np)))
                    (stringify [Num f])
                  \<longleftrightarrow> (\<exists>(toState, p) \<in> set tr. 0 < p))
             \<and> (\<forall>x. count (successors (transitionTable (snd (updateProbabilities mul m np))) f) x
                     = declared_copies mul tr x))
          \<and> (\<forall>k. table_has (transitionTable (snd (updateProbabilities mul m np))) k
                 \<longrightarrow> (\<exists>f \<in> fst ` set np. k = stringify [Num f]))
          \<and> (\<forall>t0. transitionTable (snd (updateProbabilities mul (m\<lparr>transitionTable := t0\<rparr>) np))
                 = transitionTable (snd (updateProbabilities mul m np))))
       \<and> (order m \<noteq> 1 \<longrightarrow> snd (updateProbabilities mul m np) = m)"
proof (cases "order m = 1")
  case False
  then show ?thesis by (simp add: updateProbabilities_def)
next
  case True
  have tab: "transitionTable (snd (updateProbabilities mul m np)) = foldl (update_from mul) [] np"
    using True by (simp add: updateProbabilities_def)
  have counts: "count (successors (foldl (update_from mul) [] np) f) x = declared_copies mul tr x"
    if "(f, tr) \<in> set np" for f tr x
    using that assms by (intro successors_update_all) auto
  have present: "table_has (foldl (update_from mul) [] np) (stringify [Num f])
       \<longleftrightarrow> (\<exists>(toState, p) \<in> set tr. 0 < p)"
    if "(f, tr) \<in> set np" for f tr
    using assms(1) that by (rule key_present_iff)
  have keys: "\<exists>f \<in> fst ` set np. k = stringify [Num f]"
    if "table_has (foldl (update_from mul) [] np) k" for k
    using that table_keys_update_all [of mul "[]" np k]
    by (simp add: table_has_def table_get_def)
  have declared: "\<forall>(f, tr) \<in> set np.
               (table_has (foldl (update_from mul) [] np) (stringify [Num f])
                  \<longleftrightarrow> (\<exists>(toState, p) \<in> set tr. 0 < p))
             \<and> (\<forall>x. count (successors (foldl (update_from mul) [] np) f) x
                     = declared_copies mul tr x)"
    using counts present by blast
  have indep: "transitionTable (snd (updateProbabilities mul (m\<lparr>transitionTable := t0\<rparr>) np))
      = foldl (update_from mul) [] np" for t0
    using True by (simp add: updateProbabilities_def)
  show ?thesis
    unfolding tab indep using True declared keys by blast
qed

theorem updateProbabilities_rebuilds_table_witness:
  "distinct (map fst [(60 :: int, [(62 :: int, 1 / 2 :: rat), (64, 0)]), (61, [(62, 0)])])
   \<and> distinct (map fst [(62 :: int, 1 / 2 :: rat), (64, 0)])
   \<and> distinct (map fst [(62 :: int, 0 :: rat)])
   \<and> order (new_MarkovChain 1) = 1
   \<and> count (successors (transitionTable (snd (updateProbabilities exact_mul (new_MarkovChain 1)
               [(60, [(62, 1 / 2), (64, 0)]), (61, [(62, 0)])]))) 60) 62 = 50
   \<and> count (successors (transitionTable (snd (updateProbabilities exact_mul (new_MarkovChain 1)
               [(60, [(62, 1 / 2), (64, 0)]), (61, [(62, 0)])]))) 60) 64 = 0
   \<and> table_has (transitionTable (snd (updateProbabilities exact_mul (new_MarkovChain 1)
               [(60, [(62, 1 / 2), (64, 0)]), (61, [(62, 0)])]))) (stringify [Num 60])
   \<and> \<not> table_has (transitionTable (snd (updateProbabilities exact_mul (new_MarkovChain 1)
               [(60, [(62, 1 / 2), (64, 0)]), (61, [(62, 0)])]))) (stringify [Num 61])"
proof -
  let ?np = "[(60 :: int, [(62 :: int, 1 / 2 :: rat), (64, 0)]), (61, [(62, 0)])]"
  let ?T = "transitionTable (snd (updateProbabilities exact_mul (new_MarkovChain 1) ?np))"
  have a: "distinct (map fst ?np)" by simp
  have b: "\<forall>(f, tr) \<in> set ?np. distinct (map fst tr)" by simp
  have c: "order (new_MarkovChain 1) = 1" by (simp add: new_MarkovChain_def)
  have r: "js_round (exact_mul (1 / 2) 100) = 50"
    by (simp add: js_round_def exact_mul_def floor_eq_iff)
  have d: "declared_copies exact_mul [(62, 1 / 2), (64, 0)] 62 = 50"
     "declared_copies exact_mul [(62, 1 / 2), (64, 0)] 64 = 0"
    using r by (simp_all add: declared_copies_def)
  note inst = updateProbabilities_rebuilds_table [OF a b, of "new_MarkovChain 1" exact_mul]
  from inst c have all: "\<forall>(f, tr) \<in> set ?np.
               (table_has ?T (stringify [Num f]) \<longleftrightarrow> (\<exists>(toState, p) \<in> set tr. 0 < p))
             \<and> (\<forall>x. count (successors ?T f) x = declared_copies exact_mul tr x)"
    by blast
  have m60: "(60, [(62, 1 / 2), (64, 0)]) \<in> set ?np" by simp
  have m61: "(61, [(62, 0)]) \<in> set ?np" by simp
  from all m60 have k60: "table_has ?T (stringify [Num 60])
      \<longleftrightarrow> (\<exists>(toState, p) \<in> set [(62 :: int, 1 / 2 :: rat), (64, 0)]. 0 < p)"
    and c60: "\<forall>x. count (successors ?T 60) x = declared_copies exact_mul [(62, 1 / 2), (64, 0)] x"
    by blast+
  from all m61 have k61: "table_has ?T (stringify [Num 61])
      \<longleftrightarrow> (\<exists>(toState, p) \<in> set [(62 :: int, 0 :: rat)]. 0 < p)"
    by blast
  have "table_has ?T (stringify [Num 60])" using k60 by simp
  moreover have "\<not> table_has ?T (stringify [Num 61])" using k61 by simp
  moreover have "count (successors ?T 60) 62 = 50" "count (successors ?T 60) 64 = 0"
    using c60 d by simp_all
  ultimately show ?thesis using a c by simp
qed

text \<open>
  C10: when every probability declared for a from-state is strictly positive and below
  0.005, the rebuilt table of an order-1 model holds that from-state's key with an empty
  successor array. A turn of \<open>generate\<close> whose sequence ends in that from-state finds the
  key in the table, reads index 0 of the empty array and pushes \<^verbatim>\<open>undefined\<close>, whatever the
  draw and whatever the starting states: the fallback is not used. The probabilities are
  doubles and their products with 100 are rounded to the nearest double, as IEEE 754
  arithmetic does: the largest double below 0.005 times 100 is below one half.
\<close>

theorem updateProbabilities_empty_successors_push_undefined:
  assumes "order m = 1" "distinct (map fst np)" "(f, tr) \<in> set np" "tr \<noteq> []"
    "\<forall>(toState, p) \<in> set tr.
       0 < p \<and> p < 1 / 200 \<and> is_double p \<and> nearest_double (mul p 100) (p * 100)"
  shows "table_has (transitionTable (snd (updateProbabilities mul m np))) (stringify [Num f])
       \<and> table_get (transitionTable (snd (updateProbabilities mul m np))) (stringify [Num f])
           = Some []
       \<and> random_index d 0 = 0
       \<and> generate_turn (snd (updateProbabilities mul m np)) d (sequence @ [Num f])
           = Push Undefined
       \<and> (int (length (sequence @ [Num f])) < len \<longrightarrow>
            mc_generate_loop (snd (updateProbabilities mul m np)) rnd k len (sequence @ [Num f])
              = mc_generate_loop (snd (updateProbabilities mul m np)) rnd (k + 1) len
                  (sequence @ [Num f, Undefined]))"
proof -
  let ?m = "snd (updateProbabilities mul m np)"
  obtain e where "e \<in> set tr" using assms(4) by (cases tr) auto
  with assms(5) have pos: "\<not> (\<forall>(toState, p) \<in> set tr. p \<le> 0)" by fastforce
  have ord: "order ?m = 1" using assms(1) by (simp add: updateProbabilities_def)
  have "transitionTable ?m = foldl (update_from mul) [] np"
    using assms(1) by (simp add: updateProbabilities_def)
  then have get: "table_get (transitionTable ?m) (stringify [Num f]) = Some []"
    using table_get_update_all_declared [OF assms(2,3), where t = "[]" and mul = mul] pos
      copies_small [of tr mul, OF assms(5)]
    by (simp add: table_get_def stored_def)
  have turn: "generate_turn ?m d' (sequence @ [Num f]) = Push Undefined" for d'
    using get ord by (simp add: generate_turn_def slice_from_def js_nth_def)
  have loop: "mc_generate_loop ?m rnd k len (sequence @ [Num f])
      = mc_generate_loop ?m rnd (k + 1) len (sequence @ [Num f, Undefined])"
    if "int (length (sequence @ [Num f])) < len"
    using that turn by (subst mc_generate_loop.simps) simp
  show ?thesis
    using get turn loop by (simp add: table_has_def table_get_def random_index_def)
qed

lemma is_double_exact_examples: "is_double (1 / 1024)" "is_double (100 / 1024)"
proof -
  show "is_double (1 / 1024)"
  proof (rule is_doubleI)
    show "\<bar>1 :: int\<bar> < 2 ^ 53" by simp
    show "(10 :: nat) \<le> 1074" by simp
    show "(1 / 1024 :: rat) = of_int 1 / 2 ^ 10" by simp
  qed
  show "is_double (100 / 1024)"
  proof (rule is_doubleI)
    show "\<bar>25 :: int\<bar> < 2 ^ 53" by simp
    show "(8 :: nat) \<le> 1074" by simp
    show "(100 / 1024 :: rat) = of_int 25 / 2 ^ 8" by simp
  qed
qed

theorem updateProbabilities_empty_successors_push_undefined_witness:
  "order (new_MarkovChain 1) = 1
   \<and> distinct (map fst [(60 :: int, [(62 :: int, 1 / 1024 :: rat)])])
   \<and> (60, [(62, 1 / 1024)]) \<in> set [(60 :: int, [(62 :: int, 1 / 1024 :: rat)])]
   \<and> [(62 :: int, 1 / 1024 :: rat)] \<noteq> []
   \<and> (0 :: rat) < 1 / 1024 \<and> (1 / 1024 :: rat) < 1 / 200
   \<and> is_double (1 / 1024)
   \<and> nearest_double (exact_mul (1 / 1024) 100) (1 / 1024 * 100)
   \<and> int (length ([] @ [Num 60])) < 2
   \<and> generate_turn (snd (updateProbabilities exact_mul (new_MarkovChain 1)
          [(60, [(62, 1 / 1024)])])) 0 ([] @ [Num 60]) = Push Undefined
   \<and> snd (mc_generate_loop (snd (updateProbabilities exact_mul (new_MarkovChain 1)
          [(60, [(62, 1 / 1024)])])) zero_draws 0 2 ([] @ [Num 60])) = [Num 60, Undefined]"
proof -
  let ?np = "[(60 :: int, [(62 :: int, 1 / 1024 :: rat)])]"
  let ?m = "snd (updateProbabilities exact_mul (new_MarkovChain 1) ?np)"
  have a: "order (new_MarkovChain 1) = 1" by (simp add: new_MarkovChain_def)
  have b: "distinct (map fst ?np)" by simp
  have c: "(60, [(62, 1 / 1024)]) \<in> set ?np" by simp
  have d: "[(62 :: int, 1 / 1024 :: rat)] \<noteq> []" by simp
  have dbl: "is_double (1 / 1024)" by (rule is_double_exact_examples)
  have near: "nearest_double (exact_mul (1 / 1024) 100) (1 / 1024 * 100)"
    unfolding nearest_double_def exact_mul_def
    using is_double_exact_examples(2) by simp
  have e: "\<forall>(toState, p) \<in> set [(62 :: int, 1 / 1024 :: rat)].
       0 < p \<and> p < 1 / 200 \<and> is_double p \<and> nearest_double (exact_mul p 100) (p * 100)"
    using dbl near by simp
  have l: "int (length ([] @ [Num 60])) < 2" by simp
  note inst = updateProbabilities_empty_successors_push_undefined
    [where mul = exact_mul and d = 0 and sequence = "[]" and len = 2 and rnd = zero_draws
       and k = 0, OF a b c d e]
  from inst have turn: "generate_turn ?m 0 ([] @ [Num 60]) = Push Undefined" by simp
  from inst l have "mc_generate_loop ?m zero_draws 0 2 ([] @ [Num 60])
      = mc_generate_loop ?m zero_draws (0 + 1) 2 ([] @ [Num 60, Undefined])"
    by blast
  also have "\<dots> = ([], [Num 60, Undefined])"
    by (subst mc_generate_loop.simps) simp
  finally show ?thesis using a b c d dbl near l turn by simp
qed

section \<open>Verified properties of the cellular automaton\<close>

lemma rule_bit_bit: "i < 32 \<Longrightarrow> rule_bit r i = (if bit r i then 1 else 0)"
  by (simp add: rule_bit_def push_bit_of_1 and_exp_eq_0_iff_not_bit bit_word_of_int_iff)

lemma binary_patterns:
  "padStart3 (nat_binary 0) = ''000''" "padStart3 (nat_binary 1) = ''001''"
  "padStart3 (nat_binary 2) = ''010''" "padStart3 (nat_binary 3) = ''011''"
  "padStart3 (nat_binary 4) = ''100''" "padStart3 (nat_binary 5) = ''101''"
  "padStart3 (nat_binary 6) = ''110''" "padStart3 (nat_binary 7) = ''111''"
  "padStart3 (nat_binary (Suc 0)) = ''001''"
  by code_simp+

lemma upt_8: "[0..<8] = [0, 1, 2, 3, 4, 5, 6, 7]"
  by (simp add: upt_rec)

lemma generateRuleTable_entries:
  "generateRuleTable r =
     [(''000'', rule_bit r 0), (''001'', rule_bit r 1), (''010'', rule_bit r 2),
      (''011'', rule_bit r 3), (''100'', rule_bit r 4), (''101'', rule_bit r 5),
      (''110'', rule_bit r 6), (''111'', rule_bit r 7)]"
  by (simp add: generateRuleTable_def upt_8 binary_patterns)

lemma js_to_string_bits: "js_to_string (Num 0) = ''0''" "js_to_string (Num 1) = ''1''"
  by code_simp+

lemma generateRuleTable_lookup:
  "map_of (generateRuleTable r) ''000'' = Some (rule_bit r 0)"
  "map_of (generateRuleTable r) ''001'' = Some (rule_bit r 1)"
  "map_of (generateRuleTable r) ''010'' = Some (rule_bit r 2)"
  "map_of (generateRuleTable r) ''011'' = Some (rule_bit r 3)"
  "map_of (generateRuleTable r) ''100'' = Some (rule_bit r 4)"
  "map_of (generateRuleTable r) ''101'' = Some (rule_bit r 5)"
  "map_of (generateRuleTable r) ''110'' = Some (rule_bit r 6)"
  "map_of (generateRuleTable r) ''111'' = Some (rule_bit r 7)"
  by (simp_all add: generateRuleTable_entries)

lemma getNextCellState_bit:
  assumes "l \<in> {0, 1}" "c \<in> {0, 1}" "x \<in> {0, 1}"
  shows "getNextCellState (generateRuleTable r) (Num l) (Num c) (Num x)
       = Num (if bit r (nat (4 * l + 2 * c + x)) then 1 else 0)"
proof -
  from assms have "l = 0 \<or> l = 1" "c = 0 \<or> c = 1" "x = 0 \<or> x = 1" by auto
  then show ?thesis
    by (elim disjE)
      (simp_all add: getNextCellState_def generateRuleTable_lookup js_to_string_bits rule_bit_bit)
qed

lemma foldl_js_assign:
  assumes "k \<le> n"
  shows "foldl (\<lambda>acc i. js_assign acc i (f i)) (replicate n z) [0..<k]
       = map f [0..<k] @ replicate (n - k) z"
  using assms
proof (induction k)
  case 0
  then show ?case by simp
next
  case (Suc k)
  then have k: "k < n" by simp
  obtain j where j: "n - k = Suc j" using k by (cases "n - k") auto
  then have j': "n - Suc k = j" by simp
  have "js_assign (map f [0..<k] @ replicate (n - k) z) k (f k)
      = map f [0..<k] @ f k # replicate j z"
    using k by (simp add: js_assign_def j list_update_append)
  then show ?case
    using Suc k by (simp add: j')
qed

lemma evolve_row: "fst (evolve ca) = map (next_cell ca) [0..<size_ca ca]"
proof -
  have "evolve_cell ca = (\<lambda>acc i. js_assign acc i (next_cell ca i))"
    by (intro ext) (simp add: evolve_cell_def next_cell_def Let_def)
  then show ?thesis
    using foldl_js_assign [of "size_ca ca" "size_ca ca" "next_cell ca" "Num 0"]
    by (simp add: evolve_def Let_def)
qed

lemma js_rem_nonneg: "0 \<le> a \<Longrightarrow> 0 < b \<Longrightarrow> js_rem a b = Some (a mod b)"
  by (cases "a = 0") (simp_all add: js_rem_def)

lemma next_cell_wraparound:
  assumes "length (currentState ca) = size_ca ca" "i < size_ca ca"
  shows "next_cell ca i =
     getNextCellState (ruleTable ca)
       (currentState ca ! ((i + size_ca ca - 1) mod size_ca ca))
       (currentState ca ! i)
       (currentState ca ! ((i + 1) mod size_ca ca))"
proof -
  let ?W = "size_ca ca"
  have W: "0 < ?W" using assms(2) by simp
  have e: "int i - 1 + int ?W = int (i + ?W - 1)" using W by linarith
  have "js_rem (int (i + ?W - 1)) (int ?W) = Some (int (i + ?W - 1) mod int ?W)"
    by (rule js_rem_nonneg) (use W in simp_all)
  then have l: "js_rem (int i - 1 + int ?W) (int ?W) = Some (int ((i + ?W - 1) mod ?W))"
    by (simp only: e zmod_int)
  have e': "int i + 1 = int (i + 1)" by simp
  have "js_rem (int (i + 1)) (int ?W) = Some (int (i + 1) mod int ?W)"
    by (rule js_rem_nonneg) (use W in simp_all)
  then have r: "js_rem (int i + 1) (int ?W) = Some (int ((i + 1) mod ?W))"
    by (simp only: e' zmod_int)
  show ?thesis
    unfolding next_cell_def l r using assms W by (simp add: js_index_def js_nth_def)
qed

text \<open>
  For an automaton whose table is the table of its rule number and whose current row has
  its width, \<open>evolve\<close> looks the table up on the cells \<open>i - 1\<close>, \<open>i\<close> and \<open>i + 1\<close> of
  the current row, indices wrapping around.
\<close>

lemma evolve_row_lookup:
  assumes "ruleTable ca = generateRuleTable (rule ca)" "length (currentState ca) = size_ca ca"
  shows "(\<forall>l \<in> {0, 1}. \<forall>c \<in> {0, 1}. \<forall>x \<in> {0, 1}.
            getNextCellState (ruleTable ca) (Num l) (Num c) (Num x)
              = Num (if bit (rule ca) (nat (4 * l + 2 * c + x)) then 1 else 0))
       \<and> length (fst (evolve ca)) = size_ca ca
       \<and> (\<forall>i < size_ca ca.
            fst (evolve ca) ! i =
              getNextCellState (ruleTable ca)
                (currentState ca ! ((i + size_ca ca - 1) mod size_ca ca))
                (currentState ca ! i)
                (currentState ca ! ((i + 1) mod size_ca ca)))
       \<and> currentState (snd (evolve ca)) = fst (evolve ca)"
proof -
  have "getNextCellState (ruleTable ca) (Num l) (Num c) (Num x)
      = Num (if bit (rule ca) (nat (4 * l + 2 * c + x)) then 1 else 0)"
    if "l \<in> {0, 1}" "c \<in> {0, 1}" "x \<in> {0, 1}" for l c x
    unfolding assms(1) using that by (rule getNextCellState_bit)
  moreover have "fst (evolve ca) ! i =
      getNextCellState (ruleTable ca)
        (currentState ca ! ((i + size_ca ca - 1) mod size_ca ca))
        (currentState ca ! i)
        (currentState ca ! ((i + 1) mod size_ca ca))"
    if "i < size_ca ca" for i
    using that next_cell_wraparound [OF assms(2) that] by (simp add: evolve_row)
  moreover have "length (fst (evolve ca)) = size_ca ca"
    by (simp add: evolve_row)
  moreover have "currentState (snd (evolve ca)) = fst (evolve ca)"
    by (simp add: evolve_def Let_def)
  ultimately show ?thesis by blast
qed

lemma new_CellularAutomata_fields:
  "rule (new_CellularAutomata r W initialState) = r"
  "size_ca (new_CellularAutomata r W initialState) = W"
  "ruleTable (new_CellularAutomata r W initialState) = generateRuleTable r"
  "currentState (new_CellularAutomata r W initialState) = initial_row W initialState"
  by (simp_all add: new_CellularAutomata_def Let_def)

lemma evolve_fields:
  "rule (snd (evolve ca)) = rule ca"
  "size_ca (snd (evolve ca)) = size_ca ca"
  "ruleTable (snd (evolve ca)) = ruleTable ca"
  "currentState (snd (evolve ca)) = fst (evolve ca)"
  by (simp_all add: evolve_def Let_def)

lemma evolved_fields:
  "rule (evolved n ca) = rule ca"
  "size_ca (evolved n ca) = size_ca ca"
  "ruleTable (evolved n ca) = ruleTable ca"
  by (induction n arbitrary: ca) (simp_all add: evolve_fields)

lemma length_initial_row: "0 < W \<Longrightarrow> length (initial_row W initialState) = W"
  by (simp add: initial_row_def js_assign_def)

lemma row_fits_new: "row_fits (new_CellularAutomata r W initialState)"
  by (simp add: row_fits_def new_CellularAutomata_fields length_initial_row)

lemma row_fits_evolve: "row_fits (snd (evolve ca))"
  by (simp add: row_fits_def evolve_fields evolve_row)

lemma row_fits_evolved: "row_fits ca \<Longrightarrow> row_fits (evolved n ca)"
  by (induction n arbitrary: ca) (simp_all add: row_fits_evolve)

lemma generateRuleTable_bits:
  "generateRuleTable r =
     [(''000'', if bit r 0 then 1 else 0), (''001'', if bit r 1 then 1 else 0),
      (''010'', if bit r 2 then 1 else 0), (''011'', if bit r 3 then 1 else 0),
      (''100'', if bit r 4 then 1 else 0), (''101'', if bit r 5 then 1 else 0),
      (''110'', if bit r 6 then 1 else 0), (''111'', if bit r 7 then 1 else 0)]"
  unfolding generateRuleTable_entries by (simp add: rule_bit_bit)

text \<open>
  C5: for every rule number, width and initial state, the automaton the constructor
  builds, and that automaton after any number of calls of \<open>evolve\<close>, holds the table of
  eight entries whose entry for the neighbourhood read as the 3-bit number
  \<open>4 * left + 2 * center + right\<close> is that bit of the rule number. \<open>evolve\<close> returns a row of
  the automaton's width whose cell \<open>i\<close> is the table looked up on the cells \<open>i - 1\<close>, \<open>i\<close>
  and \<open>i + 1\<close> of the row before, indices wrapping around, so that no cell of the new row
  is read. The new row becomes the current state.
\<close>

theorem constructed_automaton_evolves_by_rule_table:
  assumes "ca = evolved n (new_CellularAutomata r W initialState)"
  shows "rule ca = r \<and> size_ca ca = W
       \<and> ruleTable ca =
           [(''000'', if bit r 0 then 1 else 0), (''001'', if bit r 1 then 1 else 0),
            (''010'', if bit r 2 then 1 else 0), (''011'', if bit r 3 then 1 else 0),
            (''100'', if bit r 4 then 1 else 0), (''101'', if bit r 5 then 1 else 0),
            (''110'', if bit r 6 then 1 else 0), (''111'', if bit r 7 then 1 else 0)]
       \<and> (\<forall>l \<in> {0, 1}. \<forall>c \<in> {0, 1}. \<forall>x \<in> {0, 1}.
            getNextCellState (ruleTable ca) (Num l) (Num c) (Num x)
              = Num (if bit r (nat (4 * l + 2 * c + x)) then 1 else 0))
       \<and> length (fst (evolve ca)) = W
       \<and> (\<forall>i < W.
            fst (evolve ca) ! i =
              getNextCellState (ruleTable ca)
                (currentState ca ! ((i + W - 1) mod W))
                (currentState ca ! i)
                (currentState ca ! ((i + 1) mod W)))
       \<and> currentState (snd (evolve ca)) = fst (evolve ca)"
proof -
  have r: "rule ca = r" and W: "size_ca ca = W" and tab: "ruleTable ca = generateRuleTable r"
    unfolding assms by (simp_all add: evolved_fields new_CellularAutomata_fields)
  have fits: "row_fits ca"
    unfolding assms by (intro row_fits_evolved row_fits_new)
  have entries: "ruleTable ca =
           [(''000'', if bit r 0 then 1 else 0), (''001'', if bit r 1 then 1 else 0),
            (''010'', if bit r 2 then 1 else 0), (''011'', if bit r 3 then 1 else 0),
            (''100'', if bit r 4 then 1 else 0), (''101'', if bit r 5 then 1 else 0),
            (''110'', if bit r 6 then 1 else 0), (''111'', if bit r 7 then 1 else 0)]"
    unfolding tab by (rule generateRuleTable_bits)
  have lookup: "getNextCellState (ruleTable ca) (Num l) (Num c) (Num x)
      = Num (if bit r (nat (4 * l + 2 * c + x)) then 1 else 0)"
    if "l \<in> {0, 1}" "c \<in> {0, 1}" "x \<in> {0, 1}" for l c x
    unfolding tab using that by (rule getNextCellState_bit)
  have cell: "fst (evolve ca) ! i =
      getNextCellState (ruleTable ca)
        (currentState ca ! ((i + W - 1) mod W))
        (currentState ca ! i)
        (currentState ca ! ((i + 1) mod W))"
    if "i < W" for i
  proof -
    have len: "length (currentState ca) = size_ca ca"
      using fits that W by (simp add: row_fits_def)
    have i: "i < size_ca ca" using that W by simp
    show ?thesis
      using next_cell_wraparound [OF len i] i by (simp add: evolve_row W)
  qed
  have width: "length (fst (evolve ca)) = W"
    by (simp add: evolve_row W)
  have cur: "currentState (snd (evolve ca)) = fst (evolve ca)"
    by (rule evolve_fields)
  show ?thesis
    using r W entries lookup cell width cur by (intro conjI ballI allI impI) blast+
qed

theorem constructed_automaton_evolves_by_rule_table_witness:
  "(0 :: int) \<in> {0, 1} \<and> (1 :: int) \<in> {0, 1} \<and> (2 :: nat) < 8
   \<and> rule (evolved 1 (new_CellularAutomata 90 8 None)) = 90
   \<and> map_of (ruleTable (evolved 1 (new_CellularAutomata 90 8 None))) ''010'' = Some 0
   \<and> getNextCellState (ruleTable (evolved 1 (new_CellularAutomata 90 8 None)))
        (Num 0) (Num 1) (Num 0) = Num 0
   \<and> currentState (evolved 1 (new_CellularAutomata 90 8 None))
        = [Num 0, Num 0, Num 0, Num 1, Num 0, Num 1, Num 0, Num 0]
   \<and> fst (evolve (evolved 1 (new_CellularAutomata 90 8 None))) ! 2 = Num 1"
proof -
  let ?ca = "evolved 1 (new_CellularAutomata 90 8 None)"
  note inst = constructed_automaton_evolves_by_rule_table
    [where ca = ?ca and n = 1 and r = 90 and W = 8 and initialState = None, OF refl]
  have cur: "currentState ?ca = [Num 0, Num 0, Num 0, Num 1, Num 0, Num 1, Num 0, Num 0]"
    by code_simp
  have b1: "bit (90 :: int) (1 :: nat)" by (simp add: bit_iff_odd)
  have b2: "\<not> bit (90 :: int) (2 :: nat)" by (simp add: bit_iff_odd)
  from inst have rl: "rule ?ca = 90" by blast
  from inst have "ruleTable ?ca =
           [(''000'', if bit (90 :: int) 0 then 1 else 0), (''001'', if bit (90 :: int) 1 then 1 else 0),
            (''010'', if bit (90 :: int) 2 then 1 else 0), (''011'', if bit (90 :: int) 3 then 1 else 0),
            (''100'', if bit (90 :: int) 4 then 1 else 0), (''101'', if bit (90 :: int) 5 then 1 else 0),
            (''110'', if bit (90 :: int) 6 then 1 else 0), (''111'', if bit (90 :: int) 7 then 1 else 0)]"
    by blast
  then have e010: "map_of (ruleTable ?ca) ''010'' = Some 0"
    using b2 by simp
  from inst have look: "\<forall>l \<in> {0, 1}. \<forall>c \<in> {0, 1}. \<forall>x \<in> {0, 1}.
            getNextCellState (ruleTable ?ca) (Num l) (Num c) (Num x)
              = Num (if bit (90 :: int) (nat (4 * l + 2 * c + x)) then 1 else 0)"
    by blast
  then have "getNextCellState (ruleTable ?ca) (Num 0) (Num 1) (Num 0)
      = Num (if bit (90 :: int) (nat (4 * 0 + 2 * 1 + 0)) then 1 else 0)"
    by blast
  then have t010: "getNextCellState (ruleTable ?ca) (Num 0) (Num 1) (Num 0) = Num 0"
    using b2 by simp
  from look have "getNextCellState (ruleTable ?ca) (Num 0) (Num 0) (Num 1)
      = Num (if bit (90 :: int) (nat (4 * 0 + 2 * 0 + 1)) then 1 else 0)"
    by blast
  then have t001: "getNextCellState (ruleTable ?ca) (Num 0) (Num 0) (Num 1) = Num 1"
    using b1 by simp
  from inst have "\<forall>i < 8. fst (evolve ?ca) ! i =
              getNextCellState (ruleTable ?ca)
                (currentState ?ca ! ((i + 8 - 1) mod 8))
                (currentState ?ca ! i)
                (currentState ?ca ! ((i + 1) mod 8))"
    by blast
  then have "fst (evolve ?ca) ! 2 =
              getNextCellState (ruleTable ?ca)
                (currentState ?ca ! ((2 + 8 - 1) mod 8))
                (currentState ?ca ! 2)
                (currentState ?ca ! ((2 + 1) mod 8))"
    by simp
  then have c2: "fst (evolve ?ca) ! 2 = Num 1"
    unfolding cur using t001 by simp
  show ?thesis
    using rl e010 t010 cur c2 by simp
qed

section \<open>Verified properties of the history\<close>

lemma evolve_history: "history (snd (evolve ca)) = history ca @ [fst (evolve ca)]"
  by (simp add: evolve_def Let_def)

lemma evolveMultiple_loop_history:
  "\<exists>rows. length rows = n
     \<and> fst (evolveMultiple_loop n results ca) = results @ rows
     \<and> history (snd (evolveMultiple_loop n results ca)) = history ca @ rows"
proof (induction n arbitrary: results ca)
  case 0
  then show ?case by simp
next
  case (Suc n)
  obtain r ca' where e: "evolve ca = (r, ca')" by (cases "evolve ca")
  then have h: "history ca' = history ca @ [r]"
    using evolve_history [of ca] by simp
  obtain rows where rows: "length rows = n"
    "fst (evolveMultiple_loop n (results @ [r]) ca') = (results @ [r]) @ rows"
    "history (snd (evolveMultiple_loop n (results @ [r]) ca')) = history ca' @ rows"
    using Suc.IH by blast
  show ?case
    by (rule exI [of _ "r # rows"]) (simp add: e rows h)
qed

lemma evolve_until_history:
  "\<exists>rows. length rows = nat (len - int (length (history ca)))
     \<and> history (evolve_until ca len) = history ca @ rows"
proof (induction ca len rule: evolve_until.induct)
  case (1 ca len)
  show ?case
  proof (cases "int (length (history ca)) < len")
    case False
    then show ?thesis by (subst evolve_until.simps) simp
  next
    case True
    obtain rows where rows:
      "length rows = nat (len - int (length (history (snd (evolve ca)))))"
      "history (evolve_until (snd (evolve ca)) len) = history (snd (evolve ca)) @ rows"
      using "1.IH" [OF True] by blast
    have "length (fst (evolve ca) # rows) = nat (len - int (length (history ca)))"
      using True rows(1) by (simp add: evolve_history)
    moreover have "history (evolve_until ca len) = history ca @ fst (evolve ca) # rows"
      using True rows(2) by (subst evolve_until.simps) (simp add: evolve_history)
    ultimately show ?thesis by blast
  qed
qed

text \<open>
  C9: the history is append-only. The constructor leaves the history holding the initial
  row alone; \<open>evolve\<close> appends the row it returns; \<open>evolveMultiple\<close> appends the \<open>steps\<close>
  rows it returns; \<open>generatePitches\<close> appends as many rows as the history is short of the
  requested length, none when it is long enough. In each case the history before the call
  is a prefix of the history after it, so no row is changed or removed. The other
  operations read the automaton and return no new state.
\<close>

theorem history_append_only:
  "history (new_CellularAutomata r sz initialState) = [initial_row sz initialState]
   \<and> history (snd (evolve ca)) = history ca @ [fst (evolve ca)]
   \<and> (\<exists>rows. length rows = steps
         \<and> fst (evolveMultiple ca steps) = rows
         \<and> history (snd (evolveMultiple ca steps)) = history ca @ rows)
   \<and> (\<exists>rows. length rows = nat (len - int (length (history ca)))
         \<and> history (snd (generatePitches ca len minPitch maxPitch)) = history ca @ rows)
   \<and> getHistory ca = history ca"
proof -
  have "history (new_CellularAutomata r sz initialState) = [initial_row sz initialState]"
    by (simp add: new_CellularAutomata_def initial_row_def Let_def)
  moreover have "\<exists>rows. length rows = steps
         \<and> fst (evolveMultiple ca steps) = rows
         \<and> history (snd (evolveMultiple ca steps)) = history ca @ rows"
    using evolveMultiple_loop_history [of steps "[]" ca] by (simp add: evolveMultiple_def)
  moreover have "\<exists>rows. length rows = nat (len - int (length (history ca)))
         \<and> history (snd (generatePitches ca len minPitch maxPitch)) = history ca @ rows"
    using evolve_until_history [of len ca] by (simp add: generatePitches_def Let_def)
  ultimately show ?thesis
    by (simp add: evolve_history getHistory_def)
qed

section \<open>Verified properties of the tiling loop\<close>

lemma tile_returns_only_when_long_enough:
  "tile full pattern n = Some r \<Longrightarrow> pattern = [] \<longrightarrow> \<not> length full < n"
proof (induction rule: tile.raw_induct [rotated 1, consumes 1])
  case (1 tile' full pattern n r)
  then show ?case by (auto split: if_splits)
qed

lemma tile_empty_pattern_diverges:
  assumes "length full < n"
  shows "tile full [] n = None"
proof (cases "tile full [] n")
  case None
  then show ?thesis .
next
  case (Some r)
  from tile_returns_only_when_long_enough [OF Some] assms show ?thesis by simp
qed

lemma tile_nonempty_pattern_returns:
  assumes "pattern \<noteq> []"
  shows "\<exists>r. tile full pattern n = Some r \<and> n \<le> length r"
proof (induction "n - length full" arbitrary: full rule: less_induct)
  case less
  show ?case
  proof (cases "length full < n")
    case False
    then show ?thesis by (subst tile.simps) simp
  next
    case True
    have "n - length (full @ pattern) < n - length full"
      using True assms by (cases pattern) auto
    from less [OF this] show ?thesis
      using True by (subst tile.simps) simp
  qed
qed

text \<open>
  C1: \<open>applyToSequence\<close> and \<open>applyToPitches\<close> are claimed to return for every row
  argument. For a fresh automaton of width 8 the history has one row, so row index 5 is out
  of range: \<open>toRhythm\<close> reports the invalid index and yields the empty row, and with one
  note to cover the tiling loop appends the empty row to an array that stays empty: neither
  call returns.
\<close>

theorem applyToSequence_invalid_row_never_returns:
  "toRhythm (new_CellularAutomata 30 8 None) 5 = ([Error ''Invalid row index''], [])
   \<and> applyToSequence (new_CellularAutomata 30 8 None) [60 :: int] [1 :: rat] 5 = None
   \<and> applyToPitches (new_CellularAutomata 30 8 None) [60] 5 4 = None"
proof -
  have h: "length (history (new_CellularAutomata 30 8 None)) = 1"
    by (simp add: new_CellularAutomata_def Let_def)
  have r: "toRhythm (new_CellularAutomata 30 8 None) 5 = ([Error ''Invalid row index''], [])"
    by (simp add: toRhythm_def h Let_def)
  have t: "tile [] [] (length [x]) = None" for x :: int
    by (rule tile_empty_pattern_diverges) simp
  show ?thesis
    using t by (simp add: r applyToSequence_def applyToPitches_def)
qed

section \<open>Verified properties of getProbabilityMatrix\<close>

lemma zero_matrix_counts: "zero_matrix states = counts_matrix (\<lambda>f t. 0) states"
  by (simp add: zero_matrix_def counts_matrix_def)

lemma increment_counts:
  "increment (counts_matrix K states) f0 t0
     = counts_matrix (\<lambda>f t. K f t + (if f = f0 \<and> t = t0 then 1 else 0)) states"
  by (auto simp: increment_def counts_matrix_def)

lemma increment_all_counts:
  "foldl (\<lambda>M t. increment M f0 t) (counts_matrix K states) nextValues
     = counts_matrix (\<lambda>f t. K f t + (if f = f0 then count_list nextValues t else 0)) states"
proof (induction nextValues arbitrary: K)
  case Nil
  then show ?case by (simp cong: if_cong)
next
  case (Cons v nextValues)
  have "(\<lambda>f t. K f t + (if f = f0 \<and> t = v then 1 else 0)
                + (if f = f0 then count_list nextValues t else 0))
      = (\<lambda>f t. K f t + (if f = f0 then count_list (v # nextValues) t else 0))"
    by (intro ext) auto
  then show ?case
    by (simp add: increment_counts Cons.IH)
qed

lemma fill_counts_counts:
  "fill_counts (counts_matrix K states) entries
     = counts_matrix (\<lambda>f t. K f t + occurrences entries f t) states"
proof (induction entries arbitrary: K)
  case Nil
  then show ?case by (simp add: fill_counts_def occurrences_def)
next
  case (Cons e entries)
  obtain f0 vs where e: "e = (f0, vs)" by (cases e)
  have "(\<lambda>f t. K f t + (if f = f0 then count_list vs t else 0) + occurrences entries f t)
      = (\<lambda>f t. K f t + occurrences (e # entries) f t)"
    by (intro ext) (simp add: occurrences_def e)
  then show ?case
    using Cons.IH [of "\<lambda>f t. K f t + (if f = f0 then count_list vs t else 0)"]
    by (simp add: fill_counts_def e increment_all_counts)
qed

lemma occurrences_distinct:
  assumes "distinct (map fst entries)"
  shows "occurrences entries f t
       = (case map_of entries f of Some vs \<Rightarrow> count_list vs t | None \<Rightarrow> 0)"
  using assms
proof (induction entries)
  case Nil
  then show ?case by (simp add: occurrences_def)
next
  case (Cons e entries)
  obtain f0 vs where e: "e = (f0, vs)" by (cases e)
  have IH: "occurrences entries f t
       = (case map_of entries f of Some vs \<Rightarrow> count_list vs t | None \<Rightarrow> 0)"
    using Cons by simp
  have split: "occurrences (e # entries) f t
      = (if f0 = f then count_list vs t else 0) + occurrences entries f t"
    by (simp add: occurrences_def e)
  show ?case
  proof (cases "f0 = f")
    case True
    then have "map_of entries f = None"
      using Cons.prems by (simp add: e map_of_eq_None_iff)
    then show ?thesis
      unfolding split IH using True by (simp add: e)
  next
    case False
    then show ?thesis
      unfolding split IH by (simp add: e)
  qed
qed

lemma set_set_add: "set (set_add u x) = insert x (set u)"
  by (auto simp: set_add_def)

lemma distinct_set_add: "distinct u \<Longrightarrow> distinct (set_add u x)"
  by (simp add: set_add_def)

lemma set_foldl_set_add: "set (foldl set_add u vs) = set u \<union> set vs"
  by (induction vs arbitrary: u) (simp_all add: set_set_add)

lemma distinct_foldl_set_add: "distinct u \<Longrightarrow> distinct (foldl set_add u vs)"
  by (induction vs arbitrary: u) (simp_all add: distinct_set_add)

lemma collect_states_fold_set:
  "set (foldl (\<lambda>u (f, vs). foldl set_add (set_add u f) vs) u0 entries)
     = set u0 \<union> (\<Union>(f, vs) \<in> set entries. insert f (set vs))"
proof (induction entries arbitrary: u0)
  case Nil
  show ?case by simp
next
  case (Cons e entries)
  obtain f vs where e: "e = (f, vs)" by (cases e)
  show ?case
    unfolding e foldl_Cons prod.case Cons.IH set_foldl_set_add set_set_add
    by auto
qed

lemma collect_states_fold_distinct:
  "distinct u0 \<Longrightarrow> distinct (foldl (\<lambda>u (f, vs). foldl set_add (set_add u f) vs) u0 entries)"
proof (induction entries arbitrary: u0)
  case Nil
  then show ?case by simp
next
  case (Cons e entries)
  obtain f vs where e: "e = (f, vs)" by (cases e)
  have "distinct (foldl set_add (set_add u0 f) vs)"
    using Cons.prems by (intro distinct_foldl_set_add distinct_set_add)
  then show ?case
    unfolding e foldl_Cons prod.case by (rule Cons.IH)
qed

lemma collect_states_set:
  "set (collect_states entries) = (\<Union>(f, vs) \<in> set entries. insert f (set vs))"
  "distinct (collect_states entries)"
  using collect_states_fold_set [of "[]" entries] collect_states_fold_distinct [of "[]" entries]
  by (simp_all add: collect_states_def)

lemma sum_count_list_states:
  assumes "distinct states" "set vs \<subseteq> set states"
  shows "sum_list (map (count_list vs) states) = length vs"
proof -
  have "sum_list (map (count_list vs) states) = sum (count_list vs) (set states)"
    using assms(1) by (rule sum_list_distinct_conv_sum_set)
  also have "\<dots> = length vs"
    using assms(2) by (intro sum_count_set) simp_all
  finally show ?thesis .
qed

lemma order1_entries_keys:
  assumes "order1_table t"
  shows "\<exists>entries. order1_entries t = Some entries
           \<and> t = map (\<lambda>(f, vs). ([JNum f], vs)) entries"
  using assms
proof (induction t)
  case Nil
  then show ?case by simp
next
  case (Cons e t)
  obtain k vs where e: "e = (k, vs)" by (cases e)
  from Cons.prems obtain n where k: "k = [JNum n]"
    by (auto simp: order1_table_def e)
  from Cons.prems have "order1_table t"
    by (simp add: order1_table_def)
  from Cons.IH [OF this] obtain entries where entries: "order1_entries t = Some entries"
    "t = map (\<lambda>(f, vs). ([JNum f], vs)) entries"
    by (elim exE conjE)
  have 1: "order1_entries (e # t) = Some ((n, vs) # entries)"
    by (simp add: e k parse_first_def entries(1))
  have 2: "e # t = map (\<lambda>(f, vs). ([JNum f], vs)) ((n, vs) # entries)"
    by (subst entries(2)) (simp add: e k)
  show ?case
    by (rule exI [of _ "(n, vs) # entries"]) (use 1 2 in \<open>simp only: simp_thms\<close>)
qed

lemma map_of_numeric_keys:
  "map_of (map (\<lambda>(f, vs). ([JNum f], vs)) entries) [JNum g] = map_of entries g"
  by (induction entries) auto

lemma fst_numeric_keys:
  "map fst (map (\<lambda>(f, vs). ([JNum f], vs)) entries) = map (\<lambda>f. [JNum f]) (map fst entries)"
  by (induction entries) auto

lemma distinct_numeric_keys:
  assumes "distinct (map fst (map (\<lambda>(f, vs). ([JNum f], vs)) entries))"
  shows "distinct (map fst entries)"
proof -
  have "distinct (map (\<lambda>f. [JNum f]) (map fst entries))"
    using assms unfolding fst_numeric_keys .
  then show ?thesis by (simp only: distinct_map)
qed

lemma row_sum_acc:
  "foldl (\<lambda>acc (toState, v). case (acc, v) of (Some a, Some x) \<Rightarrow> Some (a + x) | _ \<Rightarrow> None)
     (Some a) (map (\<lambda>t. (t, Some (g t))) xs) = Some (a + sum_list (map g xs))"
  by (induction xs arbitrary: a) (simp_all add: add.assoc)

lemma row_sum_map: "row_sum (map (\<lambda>t. (t, Some (g t))) xs) = Some (sum_list (map g xs))"
  using row_sum_acc [of 0 g xs] by (simp add: row_sum_def)

lemma sum_list_quotients:
  "sum_list (map (\<lambda>t. (of_nat (K t) :: rat) / c) xs) = of_nat (sum_list (map K xs)) / c"
  by (induction xs) (simp_all add: add_divide_distrib)

lemma snd_row: "map snd (map (\<lambda>t. (t, K t)) states) = map K states"
  by (simp add: comp_def)

lemma normalize_row_positive:
  assumes "0 < sum_list (map K states)"
  shows "normalize_row (map (\<lambda>t. (t, K t)) states)
       = map (\<lambda>t. (t, Some (of_nat (K t) / of_nat (sum_list (map K states))))) states"
proof -
  define T where "T = sum_list (map K states)"
  have T: "0 < T" using assms by (simp only: T_def)
  have "normalize_row (map (\<lambda>t. (t, K t)) states)
      = map (\<lambda>(toState, c). (toState, js_divide (of_nat c) (of_nat T)))
          (map (\<lambda>t. (t, K t)) states)"
    unfolding normalize_row_def snd_row Let_def T_def [symmetric] using T by (simp only: if_True)
  also have "\<dots> = map (\<lambda>t. (t, Some (of_nat (K t) / of_nat T))) states"
    using T by (simp add: js_divide_def)
  finally show ?thesis by (simp only: T_def)
qed

lemma normalize_row_zero:
  assumes "sum_list (map K states) = 0"
  shows "normalize_row (map (\<lambda>t. (t, K t)) states) = map (\<lambda>t. (t, Some 0)) states"
proof -
  have "normalize_row (map (\<lambda>t. (t, K t)) states)
      = map (\<lambda>(toState, c). (toState, Some (of_nat c))) (map (\<lambda>t. (t, K t)) states)"
    unfolding normalize_row_def snd_row Let_def assms by simp
  also have "\<dots> = map (\<lambda>t. (t, Some 0)) states"
    using assms by simp
  finally show ?thesis .
qed

lemma normalized_row_sum:
  "row_sum (normalize_row (map (\<lambda>t. (t, K t)) states))
     = (if 0 < sum_list (map K states) then Some 1 else Some 0)"
proof (cases "0 < sum_list (map K states)")
  case True
  define T where "T = sum_list (map K states)"
  have T: "0 < T" using True by (simp only: T_def)
  have "row_sum (normalize_row (map (\<lambda>t. (t, K t)) states)) = Some (of_nat T / of_nat T)"
    unfolding normalize_row_positive [OF True] row_sum_map sum_list_quotients T_def ..
  also have "\<dots> = Some 1" using T by simp
  finally show ?thesis using True by (simp only: if_True)
next
  case False
  then have z: "sum_list (map K states) = 0" by simp
  have "row_sum (normalize_row (map (\<lambda>t. (t, K t)) states)) = Some 0"
    unfolding normalize_row_zero [OF z] row_sum_map by simp
  then show ?thesis using False by (simp only: if_False)
qed

lemma map_fst_normalize_row: "map fst (normalize_row row) = map fst row"
  by (auto simp: normalize_row_def Let_def)

lemma row_total:
  assumes "distinct (map fst entries)" "distinct states"
    "(\<Union>(f, vs) \<in> set entries. insert f (set vs)) \<subseteq> set states"
  shows "sum_list (map (occurrences entries f) states)
       = (case map_of entries f of Some vs \<Rightarrow> length vs | None \<Rightarrow> 0)"
proof (cases "map_of entries f")
  case None
  then have "occurrences entries f = (\<lambda>t. 0)"
    by (intro ext) (simp add: occurrences_distinct [OF assms(1)])
  then show ?thesis using None by simp
next
  case (Some vs)
  then have "(f, vs) \<in> set entries" by (rule map_of_SomeD)
  then have sub: "set vs \<subseteq> set states" using assms(3) by auto
  have "occurrences entries f = count_list vs"
    by (intro ext) (simp add: occurrences_distinct [OF assms(1)] Some)
  then show ?thesis
    using Some sum_count_list_states [OF assms(2) sub] by simp
qed

lemma successors_entries:
  "successors (map (\<lambda>(f, vs). ([JNum f], vs)) entries) f
     = (case map_of entries f of Some vs \<Rightarrow> mset vs | None \<Rightarrow> {#})"
  by (simp add: successors_def table_get_def stringify_def to_json_def map_of_numeric_keys)

text \<open>
  C6: for an order-1 model, \<open>getProbabilityMatrix\<close> returns a matrix with one row per
  state and one entry per state in each row. The row of a from-state with at least one
  observed outgoing transition sums to 1, every entry being a quotient by the positive row
  total; the row of a from-state with none is zero in every entry and sums to 0, no
  division taking place. JavaScript numbers are idealised as rationals, so that the sum is
  exactly 1 where the claim allows a floating tolerance.
\<close>

theorem probability_rows_sum_to_one:
  assumes "order m = 1" "order1_table (transitionTable m)"
  shows "\<exists>states M. getProbabilityMatrix m = ([], Matrix states M)
           \<and> map fst M = states
           \<and> (\<forall>(f, row) \<in> set M.
                 map fst row = states
               \<and> (if successors (transitionTable m) f \<noteq> {#}
                  then row_sum row = Some 1
                  else row_sum row = Some 0 \<and> (\<forall>e \<in> set row. snd e = Some 0)))"
proof -
  obtain entries where entries: "order1_entries (transitionTable m) = Some entries"
    and tab: "transitionTable m = map (\<lambda>(f, vs). ([JNum f], vs)) entries"
    using order1_entries_keys [OF assms(2)] by (elim exE conjE)
  have d: "distinct (map fst entries)"
    using assms(2) unfolding order1_table_def tab by (intro distinct_numeric_keys) simp
  define states where "states = sort (collect_states entries)"
  define M where "M = map (\<lambda>f. (f, normalize_row (map (\<lambda>t. (t, occurrences entries f t)) states)))
                        states"
  have ds: "distinct states"
    by (simp add: states_def collect_states_set(2))
  have sub: "(\<Union>(f, vs) \<in> set entries. insert f (set vs)) \<subseteq> set states"
    by (simp add: states_def collect_states_set(1))
  have "fill_counts (zero_matrix states) entries = counts_matrix (occurrences entries) states"
    by (simp add: zero_matrix_counts fill_counts_counts)
  then have res: "getProbabilityMatrix m = ([], Matrix states M)"
    using assms(1)
    by (simp add: getProbabilityMatrix_def entries Let_def states_def M_def counts_matrix_def
        comp_def)
  have fstM: "map fst M = states"
    by (simp add: M_def comp_def)
  have rows: "map fst row = states
      \<and> (if successors (transitionTable m) f \<noteq> {#}
         then row_sum row = Some 1
         else row_sum row = Some 0 \<and> (\<forall>e \<in> set row. snd e = Some 0))"
    if "(f, row) \<in> set M" for f row
  proof -
    let ?K = "occurrences entries f"
    from that have row: "row = normalize_row (map (\<lambda>t. (t, ?K t)) states)"
      by (auto simp: M_def)
    have total: "sum_list (map ?K states)
        = (case map_of entries f of Some vs \<Rightarrow> length vs | None \<Rightarrow> 0)"
      by (rule row_total [OF d ds sub])
    have succ: "successors (transitionTable m) f \<noteq> {#} \<longleftrightarrow> 0 < sum_list (map ?K states)"
      unfolding total tab successors_entries by (simp split: option.splits)
    have 1: "map fst row = states"
      unfolding row map_fst_normalize_row by (simp add: comp_def)
    have 2: "row_sum row = (if 0 < sum_list (map ?K states) then Some 1 else Some 0)"
      unfolding row by (rule normalized_row_sum)
    have 3: "\<forall>e \<in> set row. snd e = Some 0" if "\<not> 0 < sum_list (map ?K states)"
    proof -
      from that have "sum_list (map ?K states) = 0" by simp
      then have "row = map (\<lambda>t. (t, Some 0)) states"
        unfolding row by (rule normalize_row_zero)
      then show ?thesis by simp
    qed
    show ?thesis
    proof (cases "0 < sum_list (map ?K states)")
      case True
      with 1 2 succ show ?thesis by simp
    next
      case False
      with 1 2 3 succ show ?thesis by simp
    qed
  qed
  show ?thesis
    by (intro exI [of _ states] exI [of _ M] conjI res fstM) (use rows in blast)
qed

text \<open>
  Every table an order-1 model can hold is an order-1 table: the constructor's table is,
  and \<open>train\<close> and \<open>updateProbabilities\<close> keep it so.
\<close>

lemma keys_table_set:
  "map fst (table_set t k v) = (if k \<in> set (map fst t) then map fst t else map fst t @ [k])"
proof (induction t)
  case Nil
  then show ?case by simp
next
  case (Cons e t)
  obtain k' v' where e: "e = (k', v')" by (cases e)
  show ?case
  proof (cases "k' = k")
    case True
    then show ?thesis by (simp add: e)
  next
    case False
    then show ?thesis using Cons.IH by (simp add: e)
  qed
qed

lemma keys_table_ensure:
  "map fst (table_ensure t k) = (if k \<in> set (map fst t) then map fst t else map fst t @ [k])"
proof (cases "table_has t k")
  case True
  then have "k \<in> set (map fst t)"
    by (simp add: table_has_def map_of_eq_None_iff)
  with True show ?thesis by (simp add: table_ensure_def)
next
  case False
  then have "k \<notin> set (map fst t)"
    by (simp add: table_has_def map_of_eq_None_iff)
  with False show ?thesis by (simp add: table_ensure_def keys_table_set)
qed

lemma keys_table_push:
  "map fst (table_push t k x) = map fst t"
proof (cases "table_get t k")
  case None
  then show ?thesis by (simp add: table_push_def)
next
  case (Some vs)
  then have "(k, vs) \<in> set t" unfolding table_get_def by (rule map_of_SomeD)
  then have "k \<in> set (map fst t)" by force
  with Some show ?thesis by (simp add: table_push_def keys_table_set)
qed

lemma order1_table_keys:
  "order1_table t \<longleftrightarrow> distinct (map fst t) \<and> (\<forall>k \<in> set (map fst t). \<exists>n. k = [JNum n])"
  by (simp add: order1_table_def)

lemma order1_table_ensure:
  assumes "order1_table t"
  shows "order1_table (table_ensure t [JNum n])"
  using assms unfolding order1_table_keys keys_table_ensure by auto

lemma order1_table_push:
  assumes "order1_table t"
  shows "order1_table (table_push t k x)"
  using assms unfolding order1_table_keys keys_table_push .

lemma order1_table_train_step:
  assumes "order1_table t" "i < length sequence"
  shows "order1_table (train_step 1 sequence t i)"
proof -
  have "drop i sequence = sequence ! i # drop (Suc i) sequence"
    using assms(2) by (simp add: Cons_nth_drop_Suc)
  then have "slice sequence i (i + 1) = [sequence ! i]"
    by (simp add: slice_def)
  then have "stringify (map Num (slice sequence i (i + 1))) = [JNum (sequence ! i)]"
    by (simp add: stringify_def to_json_def)
  then show ?thesis
    using assms(1) by (simp add: train_step_def Let_def order1_table_push order1_table_ensure)
qed

lemma order1_table_train_fold:
  assumes "order1_table t" "n \<le> length sequence"
  shows "order1_table (foldl (train_step 1 sequence) t [0..<n])"
  using assms(2)
proof (induction n)
  case 0
  then show ?case using assms(1) by simp
next
  case (Suc n)
  then show ?case
    using order1_table_train_step [of "foldl (train_step 1 sequence) t [0..<n]" n sequence]
    by simp
qed

lemma order1_table_train:
  assumes "order m = 1" "order1_table (transitionTable m)"
  shows "order1_table (transitionTable (snd (mc_train m sequence)))"
proof -
  have "order1_table (foldl (train_step 1 sequence) (transitionTable m)
          [0..<length sequence - 1])"
    using assms(2) by (rule order1_table_train_fold) simp
  then show ?thesis
    using assms by (simp add: mc_train_def)
qed

lemma order1_table_update_transition:
  assumes "order1_table t"
  shows "order1_table (update_transition mul [JNum f] t e)"
proof -
  obtain toState p where e: "e = (toState, p)" by (cases e)
  have "order1_table (foldl (\<lambda>tab i. table_push tab [JNum f] toState) t' [0..<n])"
    if "order1_table t'" for t' n
    using that by (induction n) (simp_all add: order1_table_push)
  then show ?thesis
    using assms by (simp add: update_transition_def e Let_def order1_table_ensure)
qed

lemma order1_table_update_from:
  assumes "order1_table t"
  shows "order1_table (update_from mul t e)"
proof -
  obtain f transitions where e: "e = (f, transitions)" by (cases e)
  have "order1_table (foldl (update_transition mul [JNum f]) t' transitions)"
    if "order1_table t'" for t'
    using that by (induction transitions arbitrary: t') (simp_all add: order1_table_update_transition)
  then show ?thesis
    using assms by (simp add: update_from_def e stringify_def to_json_def)
qed

lemma order1_table_updateProbabilities:
  assumes "order m = 1"
  shows "order1_table (transitionTable (snd (updateProbabilities mul m np)))"
proof -
  have "order1_table (foldl (update_from mul) t np)" if "order1_table t" for t
    using that by (induction np arbitrary: t) (simp_all add: order1_table_update_from)
  from this [of "[]"] show ?thesis
    using assms by (simp add: updateProbabilities_def order1_table_def)
qed

theorem probability_rows_sum_to_one_witness:
  "order (snd (mc_train (new_MarkovChain 1) [60, 62])) = 1
   \<and> order1_table (transitionTable (snd (mc_train (new_MarkovChain 1) [60, 62])))
   \<and> snd (getProbabilityMatrix (snd (mc_train (new_MarkovChain 1) [60, 62])))
       = Matrix [60, 62] [(60, [(60, Some 0), (62, Some 1)]), (62, [(60, Some 0), (62, Some 0)])]
   \<and> successors (transitionTable (snd (mc_train (new_MarkovChain 1) [60, 62]))) 60 \<noteq> {#}
   \<and> row_sum [(60, Some 0), (62, Some 1)] = Some 1
   \<and> successors (transitionTable (snd (mc_train (new_MarkovChain 1) [60, 62]))) 62 = {#}
   \<and> row_sum [(60, Some 0), (62, Some 0)] = Some 0"
proof -
  let ?m = "snd (mc_train (new_MarkovChain 1) [60, 62])"
  let ?M = "[(60, [(60, Some 0), (62, Some 1)]), (62, [(60, Some 0), (62, Some 0)])]
              :: rat option matrix"
  have tab: "transitionTable ?m = [([JNum 60], [62])]"
    by code_simp
  have a: "order ?m = 1"
    by (simp add: mc_train_def new_MarkovChain_def)
  have b: "order1_table (transitionTable ?m)"
    unfolding tab by (simp add: order1_table_def)
  have val: "getProbabilityMatrix ?m = ([], Matrix [60, 62] ?M)"
    by code_simp
  have s60: "successors (transitionTable ?m) 60 \<noteq> {#}"
    unfolding tab by (simp add: successors_def table_get_def stringify_def to_json_def)
  have s62: "successors (transitionTable ?m) 62 = {#}"
    unfolding tab by (simp add: successors_def table_get_def stringify_def to_json_def)
  from probability_rows_sum_to_one [OF a b] obtain states M where
    res: "getProbabilityMatrix ?m = ([], Matrix states M)"
    and rows: "\<forall>(f, row) \<in> set M.
                 map fst row = states
               \<and> (if successors (transitionTable ?m) f \<noteq> {#}
                  then row_sum row = Some 1
                  else row_sum row = Some 0 \<and> (\<forall>e \<in> set row. snd e = Some 0))"
    by (elim exE conjE)
  from res val have M: "M = ?M" by simp
  have "(60, [(60, Some 0), (62, Some 1)]) \<in> set M" by (simp add: M)
  with rows s60 have r60: "row_sum [(60, Some 0), (62, Some 1)] = Some 1" by fastforce
  have "(62, [(60, Some 0), (62, Some 0)]) \<in> set M" by (simp add: M)
  with rows s62 have r62: "row_sum [(60, Some 0), (62, Some 0)] = Some 0" by fastforce
  show ?thesis
    using a b val s60 s62 r60 r62 by simp
qed

end
